theory Spec2Isabelle
  imports Main "HOL-Library.Word" "HOL-Library.Multiset" "HOL-Library.Char_ord" "HOL-Library.List_Lexorder"
begin

section \<open>Filtered Space-Saving top-k estimator (topk.go)\<close>

text \<open>
  A shallow embedding of the streaming estimator of \<^verbatim>\<open>topk.go\<close>: the monitored set
  (type \<^verbatim>\<open>keys\<close>: a slice of elements kept as a binary min-heap together with a map from
  key to slice position), the error table \<^verbatim>\<open>alphas\<close>, and the operations \<^verbatim>\<open>New\<close>,
  \<^verbatim>\<open>Insert\<close>, \<^verbatim>\<open>Keys\<close> and \<^verbatim>\<open>Estimate\<close>.

  Conventions of the embedding.
  \<^item> The structs \<^verbatim>\<open>Element\<close> and \<^verbatim>\<open>element\<close> have the same three fields; the private one
    holds its key through a \<^verbatim>\<open>*string\<close> that always points to a string nobody writes to
    (the local copy of the argument of \<^verbatim>\<open>Insert\<close>). Both are the record \<open>Element\<close>, with
    the key held by value.
  \<^item> The counters \<^verbatim>\<open>Count\<close>, \<^verbatim>\<open>Error\<close> and the cells of \<^verbatim>\<open>alphas\<close> are Go \<^verbatim>\<open>int\<close>s;
    they are modelled as unbounded integers, so every statement below is about runs in
    which no counter leaves the range of the machine integer. The hash reduction
    \<^verbatim>\<open>reduce\<close> is written with explicit widths in the source and is modelled on words.
  \<^item> The values of the index map are slice positions written by \<^verbatim>\<open>Push\<close> and \<^verbatim>\<open>Swap\<close>;
    they are natural numbers.
  \<^item> \<^verbatim>\<open>sip13.Sum64Str(0, 0, _)\<close> belongs to another module; it is a parameter
    \<open>H :: string \<Rightarrow> 64 word\<close> of every operation that hashes.
  \<^item> A run-time panic is a value of type \<open>panic\<close>; an operation that can panic returns
    \<open>panic + result\<close>.
\<close>

subsection \<open>Data\<close>

record Element =
  Key :: string
  Count :: int
  Error :: int

record keys =
  m :: "string \<rightharpoonup> nat"
  elts :: "Element list"

record Stream =
  n :: int
  k :: keys
  alphas :: "int list"

datatype panic = IndexOutOfRange | MakesliceOutOfRange

type_synonym hash = "string \<Rightarrow> 64 word"

subsection \<open>The orders\<close>

text \<open>\<^verbatim>\<open>elementsByCountDescending.Less\<close>, on the two elements it compares. Go compares strings
  byte by byte, which is the lexicographic order on \<open>char list\<close>.\<close>

definition elementsByCountDescending_Less :: "Element \<Rightarrow> Element \<Rightarrow> bool" where
  "elementsByCountDescending_Less a b =
     (Count a > Count b \<or> (Count a = Count b \<and> Key a < Key b))"

text \<open>The comparison of \<^verbatim>\<open>keys.Less\<close> on two elements, and \<^verbatim>\<open>keys.Less\<close> itself on positions.\<close>

definition element_less :: "Element \<Rightarrow> Element \<Rightarrow> bool" where
  "element_less a b = (Count a < Count b \<or> (Count a = Count b \<and> Error a > Error b))"

definition keys_Less :: "keys \<Rightarrow> nat \<Rightarrow> nat \<Rightarrow> bool" where
  "keys_Less tk i j = element_less (elts tk ! i) (elts tk ! j)"

subsection \<open>The heap interface of \<^verbatim>\<open>keys\<close>\<close>

definition swap_elts :: "Element list \<Rightarrow> nat \<Rightarrow> nat \<Rightarrow> Element list" where
  "swap_elts es i j = (es[i := es ! j])[j := es ! i]"

definition keys_Swap :: "keys \<Rightarrow> nat \<Rightarrow> nat \<Rightarrow> keys" where
  "keys_Swap tk i j =
     (let es = swap_elts (elts tk) i j;
          m1 = (m tk)(Key (es ! i) \<mapsto> i);
          m2 = m1(Key (es ! j) \<mapsto> j)
      in \<lparr>m = m2, elts = es\<rparr>)"

definition keys_Push :: "keys \<Rightarrow> Element \<Rightarrow> keys" where
  "keys_Push tk e = \<lparr>m = (m tk)(Key e \<mapsto> length (elts tk)), elts = elts tk @ [e]\<rparr>"

subsection \<open>\<^verbatim>\<open>container/heap\<close>: up, down, Fix, Push\<close>

text \<open>The standard library's loops, as recursive functions. Positions are natural numbers:
  \<^verbatim>\<open>(j - 1) / 2\<close> is 0 at \<^verbatim>\<open>j = 0\<close> in Go (division truncates towards zero) and in \<open>nat\<close>
  (subtraction stops at 0); the test \<^verbatim>\<open>j1 < 0\<close> of \<^verbatim>\<open>down\<close> guards an overflow that positions
  of a slice cannot reach.\<close>

function up :: "keys \<Rightarrow> nat \<Rightarrow> keys" where
  "up h j =
     (let i = (j - 1) div 2 in
      if i = j \<or> \<not> keys_Less h j i then h
      else up (keys_Swap h i j) i)"
  by pat_completeness auto
termination
  by (relation "measure (\<lambda>(h, j). j)") auto

declare up.simps [simp del]

text \<open>The loop of \<^verbatim>\<open>down\<close>; it returns the heap and the final value of \<^verbatim>\<open>i\<close>.\<close>

function down_loop :: "keys \<Rightarrow> nat \<Rightarrow> nat \<Rightarrow> keys \<times> nat" where
  "down_loop h i len =
     (let j1 = 2 * i + 1 in
      if j1 \<ge> len then (h, i)
      else
        let j2 = j1 + 1;
            j = (if j2 < len \<and> keys_Less h j2 j1 then j2 else j1)
        in if \<not> keys_Less h j i then (h, i)
           else down_loop (keys_Swap h i j) j len)"
  by pat_completeness auto
termination
  by (relation "measure (\<lambda>(h, i, len). len - i)") auto

declare down_loop.simps [simp del]

definition down :: "keys \<Rightarrow> nat \<Rightarrow> nat \<Rightarrow> keys \<times> bool" where
  "down h i0 len = (let (h', i) = down_loop h i0 len in (h', i > i0))"

definition heap_Fix :: "keys \<Rightarrow> nat \<Rightarrow> keys" where
  "heap_Fix h i =
     (let (h', moved) = down h i (length (elts h)) in
      if \<not> moved then up h' i else h')"

definition heap_Push :: "keys \<Rightarrow> Element \<Rightarrow> keys" where
  "heap_Push h x = (let h' = keys_Push h x in up h' (length (elts h') - 1))"

subsection \<open>The estimator\<close>

text \<open>\<^verbatim>\<open>New\<close>: \<^verbatim>\<open>make([]element, 0, n)\<close> panics at run time for a negative capacity; there is
  no other check. Limits of the allocator are not modelled.\<close>

definition New :: "int \<Rightarrow> panic + Stream" where
  "New cap =
     (if cap < 0 then Inl MakesliceOutOfRange
      else Inr \<lparr>n = cap, k = \<lparr>m = Map.empty, elts = []\<rparr>, alphas = replicate (nat (cap * 6)) 0\<rparr>)"

text \<open>\<^verbatim>\<open>reduce\<close>: \<^verbatim>\<open>uint32(uint64(uint32(x)) * uint64(n) >> 32)\<close>. In Go \<^verbatim>\<open>*\<close> and \<^verbatim>\<open>>>\<close> have
  the same precedence and associate to the left.\<close>

definition reduce :: "64 word \<Rightarrow> int \<Rightarrow> 32 word" where
  "reduce x len =
     ucast (drop_bit 32 ((ucast (ucast x :: 32 word) :: 64 word) * (word_of_int len :: 64 word)))"

definition hashIndex :: "hash \<Rightarrow> Stream \<Rightarrow> string \<Rightarrow> nat" where
  "hashIndex H s x = unat (reduce (H x) (int (length (alphas s))))"

definition Insert :: "hash \<Rightarrow> Stream \<Rightarrow> string \<Rightarrow> int \<Rightarrow> panic + (Element \<times> Stream)" where
  "Insert H s x cnt =
     (let xhash = hashIndex H s x in
      case m (k s) x of
        Some idx \<Rightarrow>
          if idx \<ge> length (elts (k s)) then Inl IndexOutOfRange
          else
            let old = elts (k s) ! idx;
                tk = (k s)\<lparr>elts := (elts (k s))[idx := old\<lparr>Count := Count old + cnt\<rparr>]\<rparr>;
                e = elts tk ! idx
            in Inr (\<lparr>Key = Key e, Count = Count e, Error = Error e\<rparr>, s\<lparr>k := heap_Fix tk idx\<rparr>)
      | None \<Rightarrow>
          if int (length (elts (k s))) < n s then
            let e = \<lparr>Key = x, Count = cnt, Error = 0\<rparr>
            in Inr (\<lparr>Key = Key e, Count = Count e, Error = Error e\<rparr>, s\<lparr>k := heap_Push (k s) e\<rparr>)
          else if xhash \<ge> length (alphas s) \<or> elts (k s) = [] then Inl IndexOutOfRange
          else if alphas s ! xhash + cnt < Count (elts (k s) ! 0) then
            let e = \<lparr>Key = x, Count = alphas s ! xhash + cnt, Error = alphas s ! xhash\<rparr>
            in Inr (e, s\<lparr>alphas := (alphas s)[xhash := alphas s ! xhash + cnt]\<rparr>)
          else
            let minKey = Key (elts (k s) ! 0);
                mkhash = hashIndex H s minKey
            in if mkhash \<ge> length (alphas s) then Inl IndexOutOfRange
               else
                 let alphas' = (alphas s)[mkhash := Count (elts (k s) ! 0)];
                     e = \<lparr>Key = x, Count = alphas' ! xhash + cnt, Error = alphas' ! xhash\<rparr>;
                     elts' = (elts (k s))[0 := e];
                     m' = ((m (k s))(minKey := None))(x \<mapsto> 0)
                 in Inr (\<lparr>Key = Key e, Count = Count e, Error = Error e\<rparr>,
                         s\<lparr>k := heap_Fix \<lparr>m = m', elts = elts'\<rparr> 0, alphas := alphas'\<rparr>))"

text \<open>\<^verbatim>\<open>sort.Sort\<close> belongs to the standard library. It is represented by an insertion sort
  driven by the \<^verbatim>\<open>Less\<close> of the sorted type; what is proved of it below (the result is a
  permutation of the input and is ordered) is the contract of \<^verbatim>\<open>sort.Sort\<close>.\<close>

fun sort_insert :: "('a \<Rightarrow> 'a \<Rightarrow> bool) \<Rightarrow> 'a \<Rightarrow> 'a list \<Rightarrow> 'a list" where
  "sort_insert lt x [] = [x]"
| "sort_insert lt x (y # ys) = (if lt x y then x # y # ys else y # sort_insert lt x ys)"

fun sort_Sort :: "('a \<Rightarrow> 'a \<Rightarrow> bool) \<Rightarrow> 'a list \<Rightarrow> 'a list" where
  "sort_Sort lt [] = []"
| "sort_Sort lt (x # xs) = sort_insert lt x (sort_Sort lt xs)"

text \<open>\<^verbatim>\<open>Keys\<close> sorts a copy of the slice; the model returns the result together with the
  estimator as the call leaves it.\<close>

definition Keys :: "Stream \<Rightarrow> Element list \<times> Stream" where
  "Keys s =
     (let elts' = sort_Sort elementsByCountDescending_Less (elts (k s));
          converted = map (\<lambda>e. \<lparr>Key = Key e, Count = Count e, Error = Error e\<rparr>) elts'
      in (converted, s))"

definition Estimate :: "hash \<Rightarrow> Stream \<Rightarrow> string \<Rightarrow> panic + Element" where
  "Estimate H s x =
     (let xhash = hashIndex H s x in
      case m (k s) x of
        Some idx \<Rightarrow>
          if idx \<ge> length (elts (k s)) then Inl IndexOutOfRange
          else let e = elts (k s) ! idx in Inr \<lparr>Key = Key e, Count = Count e, Error = Error e\<rparr>
      | None \<Rightarrow>
          if xhash \<ge> length (alphas s) then Inl IndexOutOfRange
          else let cnt = alphas s ! xhash in Inr \<lparr>Key = x, Count = cnt, Error = cnt\<rparr>)"

text \<open>A sequence of \<^verbatim>\<open>Insert\<close> calls: the returned elements in order, and the final
  estimator. A panic ends the run.\<close>

fun Inserts :: "hash \<Rightarrow> Stream \<Rightarrow> (string \<times> int) list \<Rightarrow> panic + (Element list \<times> Stream)" where
  "Inserts H s [] = Inr ([], s)"
| "Inserts H s ((x, cnt) # ops) =
     (case Insert H s x cnt of
        Inl p \<Rightarrow> Inl p
      | Inr (e, s') \<Rightarrow>
          (case Inserts H s' ops of
             Inl p \<Rightarrow> Inl p
           | Inr (es, s'') \<Rightarrow> Inr (e # es, s'')))"

subsection \<open>Invariants\<close>

text \<open>The index map and the slice agree: every slot is indexed under its key, and every
  entry of the map points to the slot that holds its key.\<close>

definition index_ok :: "keys \<Rightarrow> bool" where
  "index_ok tk \<longleftrightarrow>
     (\<forall>i < length (elts tk). m tk (Key (elts tk ! i)) = Some i) \<and>
     (\<forall>x i. m tk x = Some i \<longrightarrow> i < length (elts tk) \<and> Key (elts tk ! i) = x)"

text \<open>The heap order of \<^verbatim>\<open>container/heap\<close>: no slot is less than its parent.\<close>

definition heap_ok :: "Element list \<Rightarrow> bool" where
  "heap_ok es \<longleftrightarrow> (\<forall>j < length es. 0 < j \<longrightarrow> \<not> element_less (es ! j) (es ! ((j - 1) div 2)))"

text \<open>The heap order with one slot in doubt: \<open>down_pre es i\<close> when only the children of
  \<open>i\<close> may be less than \<open>i\<close>, \<open>up_pre es j\<close> when only \<open>j\<close> may be less than its parent.\<close>

definition down_pre :: "Element list \<Rightarrow> nat \<Rightarrow> bool" where
  "down_pre es i \<longleftrightarrow>
     (\<forall>l < length es. 0 < l \<longrightarrow> (l - 1) div 2 \<noteq> i \<longrightarrow>
        \<not> element_less (es ! l) (es ! ((l - 1) div 2))) \<and>
     (\<forall>l < length es. 0 < l \<longrightarrow> (l - 1) div 2 = i \<longrightarrow> 0 < i \<longrightarrow>
        \<not> element_less (es ! l) (es ! ((i - 1) div 2)))"

definition up_pre :: "Element list \<Rightarrow> nat \<Rightarrow> bool" where
  "up_pre es j \<longleftrightarrow>
     (\<forall>l < length es. 0 < l \<longrightarrow> l \<noteq> j \<longrightarrow>
        \<not> element_less (es ! l) (es ! ((l - 1) div 2))) \<and>
     (\<forall>l < length es. 0 < l \<longrightarrow> (l - 1) div 2 = j \<longrightarrow> 0 < j \<longrightarrow>
        \<not> element_less (es ! l) (es ! ((j - 1) div 2)))"

text \<open>The estimator is well formed: the capacity is positive, the monitored set holds at
  most \<open>n\<close> entries, the error table has \<open>6n\<close> cells, and the index agrees with the slice.\<close>

definition wf :: "Stream \<Rightarrow> bool" where
  "wf s \<longleftrightarrow>
     1 \<le> n s \<and> int (length (elts (k s))) \<le> n s \<and>
     int (length (alphas s)) = 6 * n s \<and> index_ok (k s)"

text \<open>What holds in addition while only positive counts are inserted: the slice is a heap,
  no cell of the error table exceeds a monitored count, and the table is still zero while
  the monitored set has free space.\<close>

definition inv :: "Stream \<Rightarrow> bool" where
  "inv s \<longleftrightarrow>
     wf s \<and> heap_ok (elts (k s)) \<and>
     (\<forall>c \<in> set (alphas s). \<forall>e \<in> set (elts (k s)). c \<le> Count e) \<and>
     (int (length (elts (k s))) < n s \<longrightarrow> (\<forall>c \<in> set (alphas s). c = 0))"

text \<open>Errors lie between 0 and the count, and cells are not negative.\<close>

definition sound :: "Stream \<Rightarrow> bool" where
  "sound s \<longleftrightarrow>
     (\<forall>e \<in> set (elts (k s)). 0 \<le> Error e \<and> Error e \<le> Count e) \<and>
     (\<forall>c \<in> set (alphas s). 0 \<le> c)"


subsection \<open>The reduction as the specification words it\<close>

text \<open>\<open>reduce(h, tableSize) = floor(h_low32 * tableSize / 2^32)\<close>, on unbounded integers.\<close>

definition reduce_spec :: "64 word \<Rightarrow> int \<Rightarrow> int" where
  "reduce_spec h tableSize = (uint h mod 2 ^ 32) * tableSize div 2 ^ 32"

subsection \<open>Sequences of calls\<close>

text \<open>Every count of the sequence is positive.\<close>

definition positive :: "(string \<times> int) list \<Rightarrow> bool" where
  "positive ops \<longleftrightarrow> (\<forall>(x, cnt) \<in> set ops. 0 < cnt)"

subsection \<open>The order of the report\<close>

text \<open>Count descending, ties broken by key ascending.\<close>

definition count_desc_key_asc :: "Element \<Rightarrow> Element \<Rightarrow> bool" where
  "count_desc_key_asc a b \<longleftrightarrow> Count a > Count b \<or> (Count a = Count b \<and> Key a \<le> Key b)"

subsection \<open>A hash function for the examples\<close>

text \<open>Keys of the same length collide; with a table of 6 cells a key of length 1 goes to
  cell 0 and a key of length 2 to cell 1.\<close>

definition example_hash :: hash where
  "example_hash x = word_of_nat (length x) * 0x20000000"

subsection \<open>A state for the examples\<close>

text \<open>A full estimator of capacity 1 that monitors the key \<open>''a''\<close> with count \<open>c0\<close>
  and whose error table holds \<open>a0\<close> in cell 0, the cell of the keys of length 1.\<close>

definition example_state :: "int \<Rightarrow> int \<Rightarrow> Stream" where
  "example_state a0 c0 =
     \<lparr>n = 1,
      k = \<lparr>m = [''a'' \<mapsto> 0], elts = [\<lparr>Key = ''a'', Count = c0, Error = 0\<rparr>]\<rparr>,
      alphas = [a0, 0, 0, 0, 0, 0]\<rparr>"

section \<open>The hash reduction\<close>

lemma low32_bound: "unat (ucast (x :: 64 word) :: 32 word) < 2 ^ 32"
  using unsigned_less [of "ucast x :: 32 word", where 'a = nat] by simp

lemma unat_reduce:
  "unat (reduce x len) =
     ((unat (ucast x :: 32 word) * nat (len mod 2 ^ 64)) mod 2 ^ 64 div 2 ^ 32) mod 2 ^ 32"
proof -
  define w where "w = (ucast x :: 32 word)"
  have "unat w < 2 ^ 32" using unsigned_less [of w, where 'a = nat] by simp
  then have "unat w < 2 ^ 64" by simp
  then have a: "unat (ucast w :: 64 word) = unat w"
    by (simp add: unsigned_ucast_eq take_bit_nat_eq_self)
  have b: "unat (word_of_int len :: 64 word) = nat (len mod 2 ^ 64)"
    by (simp add: unat_eq_nat_uint uint_word_of_int)
  have "unat (ucast (drop_bit 32 (ucast w * (word_of_int len :: 64 word))) :: 32 word)
      = ((unat w * nat (len mod 2 ^ 64)) mod 2 ^ 64 div 2 ^ 32) mod 2 ^ 32"
    by (simp add: unsigned_ucast_eq unat_drop_bit_eq unat_word_ariths a b
        drop_bit_eq_div take_bit_eq_mod mod_mult_left_eq)
  then show ?thesis
    unfolding reduce_def w_def .
qed

lemma unat_reduce_small:
  assumes "0 \<le> len" "len \<le> 2 ^ 32"
  shows "unat (reduce x len) = unat (ucast x :: 32 word) * nat len div 2 ^ 32"
proof -
  let ?a = "unat (ucast x :: 32 word)"
  have lm: "len mod 2 ^ 64 = len" using assms by simp
  have a: "?a < 2 ^ 32" by (rule low32_bound)
  have l: "nat len \<le> 2 ^ 32" using assms by (simp add: nat_le_iff)
  have "?a * nat len \<le> ?a * 2 ^ 32" using l by (rule mult_le_mono2)
  also have "\<dots> < 2 ^ 32 * 2 ^ 32" using a by simp
  finally have p: "?a * nat len < 2 ^ 64" by simp
  have q: "?a * nat len div 2 ^ 32 < 2 ^ 32"
    using p by (simp add: less_mult_imp_div_less)
  show ?thesis
    unfolding unat_reduce lm using p q by simp
qed

lemma reduce_in_range:
  assumes "1 \<le> len"
  shows "int (unat (reduce x len)) < len"
proof (cases "len \<le> 2 ^ 32")
  case True
  let ?a = "unat (ucast x :: 32 word)"
  have a: "?a < 2 ^ 32" by (rule low32_bound)
  have "?a * nat len < 2 ^ 32 * nat len"
    using a assms by simp
  then have "?a * nat len div 2 ^ 32 < nat len"
    by (simp add: less_mult_imp_div_less mult.commute)
  then show ?thesis
    using True assms by (simp add: unat_reduce_small)
next
  case False
  have "unat (reduce x len) < 2 ^ 32"
    using unsigned_less [of "reduce x len", where 'a = nat] by simp
  then have "int (unat (reduce x len)) < int (2 ^ 32)"
    by (simp only: of_nat_less_iff)
  then have "int (unat (reduce x len)) < 2 ^ 32"
    by simp
  then show ?thesis using False by linarith
qed

section \<open>The heap\<close>

subsection \<open>Swaps keep the index and the contents\<close>

lemma length_swap_elts [simp]: "length (swap_elts es i j) = length es"
  by (simp add: swap_elts_def)

lemma mset_swap_elts: "i < length es \<Longrightarrow> j < length es \<Longrightarrow> mset (swap_elts es i j) = mset es"
  by (simp add: swap_elts_def mset_swap)

lemma nth_swap_elts:
  "i < length es \<Longrightarrow> j < length es \<Longrightarrow> l < length es \<Longrightarrow>
   swap_elts es i j ! l = (if l = j then es ! i else if l = i then es ! j else es ! l)"
  by (simp add: swap_elts_def nth_list_update)

lemma elts_keys_Swap [simp]: "elts (keys_Swap tk i j) = swap_elts (elts tk) i j"
  by (simp add: keys_Swap_def Let_def)

lemma index_ok_distinct:
  "index_ok tk \<Longrightarrow> i < length (elts tk) \<Longrightarrow> j < length (elts tk) \<Longrightarrow>
   Key (elts tk ! i) = Key (elts tk ! j) \<Longrightarrow> i = j"
  by (metis index_ok_def option.inject)

lemma index_ok_keys_Swap:
  assumes ok: "index_ok tk" and i: "i < length (elts tk)" and j: "j < length (elts tk)"
  shows "index_ok (keys_Swap tk i j)"
proof (cases "i = j")
  case True
  have "swap_elts (elts tk) j j = elts tk" by (simp add: swap_elts_def)
  moreover have "(m tk)(Key (elts tk ! j) \<mapsto> j) = m tk"
    using ok j by (auto simp: index_ok_def)
  ultimately have "keys_Swap tk i j = tk"
    using True by (simp add: keys_Swap_def Let_def)
  then show ?thesis using ok by simp
next
  case False
  let ?es = "elts tk"
  let ?ki = "Key (?es ! i)" and ?kj = "Key (?es ! j)"
  have ne: "?ki \<noteq> ?kj" using index_ok_distinct [OF ok i j] False by blast
  have m': "m (keys_Swap tk i j) = (m tk)(?kj \<mapsto> i, ?ki \<mapsto> j)"
    using i j False by (simp add: keys_Swap_def Let_def nth_swap_elts)
  show ?thesis
    unfolding index_ok_def
  proof (intro conjI allI impI)
    fix l assume "l < length (elts (keys_Swap tk i j))"
    then have l: "l < length ?es" by simp
    show "m (keys_Swap tk i j) (Key (elts (keys_Swap tk i j) ! l)) = Some l"
    proof -
      consider "l = i" | "l = j" | "l \<noteq> i" "l \<noteq> j" by blast
      then show ?thesis
      proof cases
        case 1 then show ?thesis using i j False ne by (simp add: m' nth_swap_elts)
      next
        case 2 then show ?thesis using i j False ne by (simp add: m' nth_swap_elts)
      next
        case 3
        have "Key (?es ! l) \<noteq> ?ki" "Key (?es ! l) \<noteq> ?kj"
          using index_ok_distinct [OF ok l i] index_ok_distinct [OF ok l j] 3 by blast+
        moreover have "m tk (Key (?es ! l)) = Some l" using ok l by (simp add: index_ok_def)
        ultimately show ?thesis using i j l 3 by (simp add: m' nth_swap_elts)
      qed
    qed
  next
    fix x l assume a: "m (keys_Swap tk i j) x = Some l"
    show "l < length (elts (keys_Swap tk i j))"
      using a ok i j by (auto simp: m' index_ok_def split: if_splits)
    show "Key (elts (keys_Swap tk i j) ! l) = x"
    proof -
      consider "x = ?ki" | "x = ?kj" "x \<noteq> ?ki" | "x \<noteq> ?ki" "x \<noteq> ?kj" by blast
      then show ?thesis
      proof cases
        case 1 then show ?thesis using a i j False by (simp add: m' nth_swap_elts)
      next
        case 2 then show ?thesis using a i j False by (simp add: m' nth_swap_elts)
      next
        case 3
        then have mx: "m tk x = Some l" using a by (simp add: m')
        then have l: "l < length ?es" and kx: "Key (?es ! l) = x"
          using ok by (auto simp: index_ok_def)
        have "l \<noteq> i" "l \<noteq> j" using kx 3 by auto
        then show ?thesis using i j l kx by (simp add: nth_swap_elts)
      qed
    qed
  qed
qed

lemma up_unfold:
  "up h j =
     (if (j - 1) div 2 = j \<or> \<not> keys_Less h j ((j - 1) div 2) then h
      else up (keys_Swap h ((j - 1) div 2) j) ((j - 1) div 2))"
  by (subst up.simps) (simp add: Let_def)

lemma down_loop_unfold:
  "down_loop h i len =
     (if 2 * i + 1 \<ge> len then (h, i)
      else if \<not> keys_Less h (if 2 * i + 2 < len \<and> keys_Less h (2 * i + 2) (2 * i + 1) then 2 * i + 2 else 2 * i + 1) i
           then (h, i)
      else down_loop (keys_Swap h i (if 2 * i + 2 < len \<and> keys_Less h (2 * i + 2) (2 * i + 1) then 2 * i + 2 else 2 * i + 1))
             (if 2 * i + 2 < len \<and> keys_Less h (2 * i + 2) (2 * i + 1) then 2 * i + 2 else 2 * i + 1) len)"
  by (subst down_loop.simps) (simp add: Let_def)

lemma up_structure:
  "index_ok h \<Longrightarrow> j < length (elts h) \<Longrightarrow>
   index_ok (up h j) \<and> mset (elts (up h j)) = mset (elts h)"
proof (induction h j rule: up.induct)
  case (1 h j)
  let ?i = "(j - 1) div 2"
  show ?case
  proof (cases "?i = j \<or> \<not> keys_Less h j ?i")
    case True
    then have "up h j = h" by (subst up_unfold) simp
    then show ?thesis using "1.prems" by simp
  next
    case False
    then have u: "up h j = up (keys_Swap h ?i j) ?i" by (subst up_unfold) simp
    have i: "?i < length (elts h)" using "1.prems" by simp
    have ok: "index_ok (keys_Swap h ?i j)"
      using "1.prems" i by (simp add: index_ok_keys_Swap)
    have "index_ok (up (keys_Swap h ?i j) ?i) \<and>
          mset (elts (up (keys_Swap h ?i j) ?i)) = mset (elts (keys_Swap h ?i j))"
      using False ok i by (intro "1.IH") simp_all
    then show ?thesis
      using u i "1.prems" by (simp add: mset_swap_elts)
  qed
qed

lemma down_loop_structure:
  "index_ok h \<Longrightarrow> len = length (elts h) \<Longrightarrow>
   index_ok (fst (down_loop h i len)) \<and> mset (elts (fst (down_loop h i len))) = mset (elts h)"
proof (induction h i len rule: down_loop.induct)
  case (1 h i len)
  let ?j1 = "2 * i + 1" and ?j2 = "2 * i + 2"
  let ?j = "if ?j2 < len \<and> keys_Less h ?j2 ?j1 then ?j2 else ?j1"
  show ?case
  proof (cases "?j1 \<ge> len \<or> \<not> keys_Less h ?j i")
    case True
    then have "down_loop h i len = (h, i)" by (subst down_loop_unfold) auto
    then show ?thesis using "1.prems" by simp
  next
    case False
    then have d: "down_loop h i len = down_loop (keys_Swap h i ?j) ?j len"
      by (subst down_loop_unfold) auto
    have j: "?j < length (elts h)" and i: "i < length (elts h)"
      using False "1.prems" by auto
    have ok: "index_ok (keys_Swap h i ?j)"
      using "1.prems" i j by (intro index_ok_keys_Swap)
    have "index_ok (fst (down_loop (keys_Swap h i ?j) ?j len)) \<and>
          mset (elts (fst (down_loop (keys_Swap h i ?j) ?j len))) = mset (elts (keys_Swap h i ?j))"
      using False ok "1.prems" by (intro "1.IH") auto
    then show ?thesis
      unfolding d using i j by (simp add: mset_swap_elts)
  qed
qed

subsection \<open>Sifting restores the heap order\<close>

lemma element_less_asym: "element_less a b \<Longrightarrow> \<not> element_less b a"
  by (auto simp: element_less_def)

lemma element_less_irrefl: "\<not> element_less a a"
  by (auto simp: element_less_def)

lemma element_less_trans: "element_less a b \<Longrightarrow> element_less b c \<Longrightarrow> element_less a c"
  by (auto simp: element_less_def)

lemma element_le_trans: "\<not> element_less b a \<Longrightarrow> \<not> element_less c b \<Longrightarrow> \<not> element_less c a"
  by (auto simp: element_less_def)

lemma element_less_le_trans: "element_less a b \<Longrightarrow> \<not> element_less c b \<Longrightarrow> \<not> element_less c a"
  by (auto simp: element_less_def)

lemma parent_eq_iff: "0 < (l::nat) \<Longrightarrow> (l - 1) div 2 = i \<longleftrightarrow> l = 2 * i + 1 \<or> l = 2 * i + 2"
  by arith

lemma parent_less: "0 < (l::nat) \<Longrightarrow> (l - 1) div 2 < l"
  by arith

lemma down_pre_swap:
  assumes pre: "down_pre es i"
    and j: "j < length es" and ji: "j = 2 * i + 1 \<or> j = 2 * i + 2"
    and lt: "element_less (es ! j) (es ! i)"
    and least: "\<forall>c < length es. (c = 2 * i + 1 \<or> c = 2 * i + 2) \<longrightarrow> \<not> element_less (es ! c) (es ! j)"
  shows "down_pre (swap_elts es i j) j"
proof -
  have i: "i < length es" and ij: "i \<noteq> j" "i < j" using j ji by auto
  have pj: "(j - 1) div 2 = i" using ji by auto
  note nth = nth_swap_elts [OF i j]
  show ?thesis
    unfolding down_pre_def
  proof (intro conjI allI impI)
    fix l assume l: "l < length (swap_elts es i j)" and l0: "0 < l" and pl: "(l - 1) div 2 \<noteq> j"
    let ?p = "(l - 1) div 2"
    have ll: "l < length es" using l by simp
    have p: "?p < length es" "?p < l" using parent_less [OF l0] ll by auto
    consider "l = j" | "l = i" | "l \<noteq> i" "l \<noteq> j" "?p = i" | "l \<noteq> i" "l \<noteq> j" "?p \<noteq> i" by blast
    then show "\<not> element_less (swap_elts es i j ! l) (swap_elts es i j ! ?p)"
    proof cases
      case 1
      then show ?thesis using pj ij j i lt by (simp add: nth element_less_asym)
    next
      case 2
      then have i0: "0 < i" using l0 by simp
      have pi: "?p \<noteq> i" "?p \<noteq> j" using p 2 ij by auto
      have "\<not> element_less (es ! j) (es ! ((i - 1) div 2))"
        using pre j pj i0 ij unfolding down_pre_def by (metis gr_implies_not0 not_gr_zero)
      then show ?thesis using 2 pi p ij i by (simp add: nth)
    next
      case 3
      then have "l = 2 * i + 1 \<or> l = 2 * i + 2" using parent_eq_iff [OF l0, of i] by simp
      then have "\<not> element_less (es ! l) (es ! j)" using least ll by blast
      then show ?thesis using 3 ll i ij by (simp add: nth)
    next
      case 4
      then have "\<not> element_less (es ! l) (es ! ?p)"
        using pre ll l0 unfolding down_pre_def by blast
      then show ?thesis using 4 pl ll p by (simp add: nth)
    qed
  next
    fix l assume l: "l < length (swap_elts es i j)" and l0: "0 < l" and pl: "(l - 1) div 2 = j" and j0: "0 < j"
    have ll: "l < length es" using l by simp
    have lj: "j < l" using parent_less [OF l0] pl by simp
    then have ne: "l \<noteq> i" "l \<noteq> j" using ij by auto
    have "\<not> element_less (es ! l) (es ! j)"
      using pre ll l0 pl ij unfolding down_pre_def by metis
    then show "\<not> element_less (swap_elts es i j ! l) (swap_elts es i j ! ((j - 1) div 2))"
      using ne ll pj ij i by (simp add: nth)
  qed
qed

lemma down_pre_done:
  assumes pre: "down_pre es i"
    and ch: "\<forall>c < length es. (c = 2 * i + 1 \<or> c = 2 * i + 2) \<longrightarrow> \<not> element_less (es ! c) (es ! i)"
  shows "heap_ok es"
  unfolding heap_ok_def
proof (intro allI impI)
  fix l assume l: "l < length es" "0 < l"
  show "\<not> element_less (es ! l) (es ! ((l - 1) div 2))"
  proof (cases "(l - 1) div 2 = i")
    case True
    then show ?thesis using ch l parent_eq_iff [of l i] by auto
  next
    case False
    then show ?thesis using pre l unfolding down_pre_def by blast
  qed
qed

lemma down_loop_heap:
  "down_pre (elts h) i \<Longrightarrow> len = length (elts h) \<Longrightarrow> heap_ok (elts (fst (down_loop h i len)))"
proof (induction h i len rule: down_loop.induct)
  case (1 h i len)
  let ?es = "elts h"
  let ?j1 = "2 * i + 1" and ?j2 = "2 * i + 2"
  let ?j = "if ?j2 < len \<and> keys_Less h ?j2 ?j1 then ?j2 else ?j1"
  show ?case
  proof (cases "?j1 \<ge> len")
    case True
    then have "down_loop h i len = (h, i)" by (subst down_loop_unfold) simp
    moreover have "heap_ok ?es"
      using "1.prems" True by (intro down_pre_done [of _ i]) auto
    ultimately show ?thesis by simp
  next
    case False
    then have j: "?j < length ?es" using "1.prems" by auto
    have least: "\<forall>c < length ?es. (c = ?j1 \<or> c = ?j2) \<longrightarrow> \<not> element_less (?es ! c) (?es ! ?j)"
      using "1.prems"(2) by (auto simp: keys_Less_def element_less_irrefl dest: element_less_asym)
    show ?thesis
    proof (cases "keys_Less h ?j i")
      case nl: False
      then have "down_loop h i len = (h, i)" by (subst down_loop_unfold) simp
      moreover have "\<forall>c < length ?es. (c = ?j1 \<or> c = ?j2) \<longrightarrow> \<not> element_less (?es ! c) (?es ! i)"
        using least nl element_le_trans [of "?es ! ?j" "?es ! i"] unfolding keys_Less_def by blast
      then have "heap_ok ?es"
        using "1.prems" by (intro down_pre_done [of _ i]) auto
      ultimately show ?thesis by simp
    next
      case True
      then have d: "down_loop h i len = down_loop (keys_Swap h i ?j) ?j len"
        using False by (subst down_loop_unfold) simp
      have "down_pre (swap_elts ?es i ?j) ?j"
        using "1.prems"(1) j _ _ least
      proof (rule down_pre_swap)
        show "?j = ?j1 \<or> ?j = ?j2" by simp
        show "element_less (?es ! ?j) (?es ! i)" using True by (simp add: keys_Less_def)
      qed
      then have "heap_ok (elts (fst (down_loop (keys_Swap h i ?j) ?j len)))"
        using False True "1.prems"(2) by (intro "1.IH") auto
      then show ?thesis unfolding d .
    qed
  qed
qed

lemma up_preD1:
  "up_pre es j \<Longrightarrow> l < length es \<Longrightarrow> 0 < l \<Longrightarrow> l \<noteq> j \<Longrightarrow>
   \<not> element_less (es ! l) (es ! ((l - 1) div 2))"
  by (simp add: up_pre_def)

lemma up_preD2:
  "up_pre es j \<Longrightarrow> l < length es \<Longrightarrow> 0 < l \<Longrightarrow> (l - 1) div 2 = j \<Longrightarrow> 0 < j \<Longrightarrow>
   \<not> element_less (es ! l) (es ! ((j - 1) div 2))"
  by (simp add: up_pre_def)

lemma up_pre_swap:
  assumes pre: "up_pre es j"
    and j: "j < length es" and j0: "0 < j"
    and lt: "element_less (es ! j) (es ! ((j - 1) div 2))"
  shows "up_pre (swap_elts es ((j - 1) div 2) j) ((j - 1) div 2)"
proof -
  define i where "i = (j - 1) div 2"
  have ij: "i < j" "i \<noteq> j" using parent_less [OF j0] by (auto simp: i_def)
  have i: "i < length es" using ij j by simp
  note nth = nth_swap_elts [OF i j]
  have lt': "element_less (es ! j) (es ! i)" using lt by (simp add: i_def)
  have "up_pre (swap_elts es i j) i"
    unfolding up_pre_def
  proof (intro conjI allI impI)
    fix l assume l: "l < length (swap_elts es i j)" and l0: "0 < l" and li: "l \<noteq> i"
    let ?p = "(l - 1) div 2"
    have ll: "l < length es" using l by simp
    have p: "?p < length es" "?p \<noteq> l" using parent_less [OF l0] ll by auto
    consider "l = j" | "l \<noteq> j" "?p = j" | "l \<noteq> j" "?p = i" | "l \<noteq> j" "?p \<noteq> i" "?p \<noteq> j" by blast
    then show "\<not> element_less (swap_elts es i j ! l) (swap_elts es i j ! ?p)"
    proof cases
      case 1
      have "\<not> element_less (es ! i) (es ! j)" using lt' by (rule element_less_asym)
      moreover have "(j - 1) div 2 = i" by (simp add: i_def)
      ultimately show ?thesis using 1 ij i j by (simp add: nth)
    next
      case 2
      then have "\<not> element_less (es ! l) (es ! i)"
        using up_preD2 [OF pre ll l0 _ j0] by (simp add: i_def)
      then show ?thesis using 2 li ll ij j by (simp add: nth)
    next
      case 3
      then have "\<not> element_less (es ! l) (es ! i)"
        using up_preD1 [OF pre ll l0] by simp
      then have "\<not> element_less (es ! l) (es ! j)"
        using lt' by (rule element_less_le_trans [rotated])
      then show ?thesis using 3 li ll ij i by (simp add: nth)
    next
      case 4
      then have "\<not> element_less (es ! l) (es ! ?p)"
        using up_preD1 [OF pre ll l0] by simp
      then show ?thesis using 4 li ll p by (simp add: nth)
    qed
  next
    fix l assume l: "l < length (swap_elts es i j)" and l0: "0 < l" and pl: "(l - 1) div 2 = i" and i0: "0 < i"
    let ?pp = "(i - 1) div 2"
    have ll: "l < length es" using l by simp
    have li: "l \<noteq> i" using parent_less [OF l0] pl by simp
    have pp: "?pp < i" "?pp < length es" using parent_less [OF i0] i by auto
    then have ppn: "?pp \<noteq> i" "?pp \<noteq> j" using ij by auto
    have ipp: "\<not> element_less (es ! i) (es ! ?pp)"
      using up_preD1 [OF pre i i0] ij by simp
    show "\<not> element_less (swap_elts es i j ! l) (swap_elts es i j ! ?pp)"
    proof (cases "l = j")
      case True
      then show ?thesis using ipp ppn pp ij j by (simp add: nth)
    next
      case False
      then have "\<not> element_less (es ! l) (es ! i)"
        using up_preD1 [OF pre ll l0] pl by simp
      then have "\<not> element_less (es ! l) (es ! ?pp)"
        using ipp by (rule element_le_trans [rotated])
      then show ?thesis using False li ll ppn pp by (simp add: nth)
    qed
  qed
  then show ?thesis by (simp add: i_def)
qed

lemma up_heap:
  "up_pre (elts h) j \<Longrightarrow> j < length (elts h) \<Longrightarrow> heap_ok (elts (up h j))"
proof (induction h j rule: up.induct)
  case (1 h j)
  let ?es = "elts h"
  let ?i = "(j - 1) div 2"
  show ?case
  proof (cases "?i = j \<or> \<not> keys_Less h j ?i")
    case True
    then have u: "up h j = h" by (subst up_unfold) simp
    have "heap_ok ?es"
      unfolding heap_ok_def
    proof (intro allI impI)
      fix l assume l: "l < length ?es" "0 < l"
      show "\<not> element_less (?es ! l) (?es ! ((l - 1) div 2))"
      proof (cases "l = j")
        case eq: True
        then have "?i \<noteq> j" using l parent_less [of j] by simp
        then show ?thesis using True eq by (simp add: keys_Less_def)
      next
        case False
        then show ?thesis using up_preD1 [OF "1.prems"(1) l] by simp
      qed
    qed
    then show ?thesis by (simp add: u)
  next
    case False
    then have u: "up h j = up (keys_Swap h ?i j) ?i" by (subst up_unfold) simp
    have j0: "0 < j" using False by (cases j) auto
    have i: "?i < length ?es" using "1.prems"(2) by simp
    have "up_pre (swap_elts ?es ?i j) ?i"
      using "1.prems" j0 False by (intro up_pre_swap) (auto simp: keys_Less_def)
    then have "heap_ok (elts (up (keys_Swap h ?i j) ?i))"
      using False i by (intro "1.IH") auto
    then show ?thesis by (simp add: u)
  qed
qed

subsection \<open>Fix and Push\<close>

lemma heap_ok_up_pre: "heap_ok es \<Longrightarrow> up_pre es j"
  unfolding up_pre_def heap_ok_def
proof (intro conjI allI impI)
  fix l assume h: "\<forall>j<length es. 0 < j \<longrightarrow> \<not> element_less (es ! j) (es ! ((j - 1) div 2))"
    and l: "l < length es" "0 < l" "(l - 1) div 2 = j" "0 < j"
  have "j < length es" using l parent_less [of l] by simp
  then have "\<not> element_less (es ! j) (es ! ((j - 1) div 2))" using h l by simp
  moreover have "\<not> element_less (es ! l) (es ! j)" using h l by auto
  ultimately show "\<not> element_less (es ! l) (es ! ((j - 1) div 2))"
    by (rule element_le_trans)
qed simp

lemma heap_ok_root:
  assumes "heap_ok es"
  shows "l < length es \<Longrightarrow> \<not> element_less (es ! l) (es ! 0)"
proof (induction l rule: less_induct)
  case (less l)
  show ?case
  proof (cases "l = 0")
    case True then show ?thesis by (simp add: element_less_irrefl)
  next
    case False
    let ?p = "(l - 1) div 2"
    have p: "?p < l" using False parent_less by simp
    then have "\<not> element_less (es ! ?p) (es ! 0)" using less by simp
    moreover have "\<not> element_less (es ! l) (es ! ?p)"
      using assms less.prems False by (simp add: heap_ok_def)
    ultimately show ?thesis by (rule element_le_trans)
  qed
qed

lemma heap_ok_root_Count:
  "heap_ok es \<Longrightarrow> e \<in> set es \<Longrightarrow> Count (es ! 0) \<le> Count e"
  using heap_ok_root by (fastforce simp: in_set_conv_nth element_less_def)

lemma down_pre_update:
  assumes h: "heap_ok es" and i: "i < length es"
    and p: "0 < i \<longrightarrow> \<not> element_less e (es ! ((i - 1) div 2))"
  shows "down_pre (es[i := e]) i"
  unfolding down_pre_def
proof (intro conjI allI impI)
  fix l assume l: "l < length (es[i := e])" "0 < l" "(l - 1) div 2 \<noteq> i"
  have pl: "(l - 1) div 2 < l" using l parent_less by simp
  show "\<not> element_less (es[i := e] ! l) (es[i := e] ! ((l - 1) div 2))"
  proof (cases "l = i")
    case True
    then show ?thesis using l p pl by simp
  next
    case False
    then show ?thesis using l h by (simp add: heap_ok_def)
  qed
next
  fix l assume l: "l < length (es[i := e])" "0 < l" "(l - 1) div 2 = i" "0 < i"
  have "l \<noteq> i" using l parent_less [of l] by auto
  moreover have "(i - 1) div 2 \<noteq> i" using l parent_less [of i] by auto
  moreover have "\<not> element_less (es ! l) (es ! ((i - 1) div 2))"
    using heap_ok_up_pre [OF h, of i] l by (simp add: up_pre_def)
  ultimately show "\<not> element_less (es[i := e] ! l) (es[i := e] ! ((i - 1) div 2))"
    using l by simp
qed

lemma length_down_loop:
  assumes "index_ok h" "len = length (elts h)"
  shows "length (elts (fst (down_loop h i len))) = length (elts h)"
  using down_loop_structure [OF assms, of i] by (metis size_mset)

lemma length_up:
  assumes "index_ok h" "j < length (elts h)"
  shows "length (elts (up h j)) = length (elts h)"
  using up_structure [OF assms] by (metis size_mset)

lemma heap_Fix_eq:
  "heap_Fix h i =
     (if snd (down_loop h i (length (elts h))) > i then fst (down_loop h i (length (elts h)))
      else up (fst (down_loop h i (length (elts h)))) i)"
  by (simp add: heap_Fix_def down_def Let_def split: prod.splits)

lemma heap_Fix_structure:
  assumes ok: "index_ok h" and i: "i < length (elts h)"
  shows "index_ok (heap_Fix h i) \<and> mset (elts (heap_Fix h i)) = mset (elts h)"
proof -
  let ?h' = "fst (down_loop h i (length (elts h)))"
  have d: "index_ok ?h'" "mset (elts ?h') = mset (elts h)"
    using down_loop_structure [OF ok refl, of i] by simp_all
  have "i < length (elts ?h')" using i length_down_loop [OF ok refl, of i] by simp
  then have "index_ok (up ?h' i) \<and> mset (elts (up ?h' i)) = mset (elts ?h')"
    using d(1) by (rule up_structure [rotated])
  then show ?thesis using d by (simp add: heap_Fix_eq)
qed

lemma heap_Fix_heap:
  assumes ok: "index_ok h" and i: "i < length (elts h)" and pre: "down_pre (elts h) i"
  shows "heap_ok (elts (heap_Fix h i))"
proof -
  let ?h' = "fst (down_loop h i (length (elts h)))"
  have hp: "heap_ok (elts ?h')" using pre by (rule down_loop_heap) simp
  have "i < length (elts ?h')" using i length_down_loop [OF ok refl, of i] by simp
  then have "heap_ok (elts (up ?h' i))"
    using heap_ok_up_pre [OF hp] by (rule up_heap [rotated])
  then show ?thesis using hp by (simp add: heap_Fix_eq)
qed

lemma index_ok_keys_Push:
  assumes ok: "index_ok h" and new: "m h (Key e) = None"
  shows "index_ok (keys_Push h e)"
  unfolding index_ok_def
proof (intro conjI allI impI)
  fix i assume i: "i < length (elts (keys_Push h e))"
  show "m (keys_Push h e) (Key (elts (keys_Push h e) ! i)) = Some i"
  proof (cases "i < length (elts h)")
    case True
    then have "m h (Key (elts h ! i)) = Some i" using ok by (simp add: index_ok_def)
    then show ?thesis using True new by (auto simp: keys_Push_def nth_append)
  next
    case False
    then have "i = length (elts h)" using i by (simp add: keys_Push_def)
    then show ?thesis by (simp add: keys_Push_def)
  qed
next
  fix x i assume a: "m (keys_Push h e) x = Some i"
  show "i < length (elts (keys_Push h e))"
    using a ok by (auto simp: keys_Push_def index_ok_def less_Suc_eq split: if_splits)
  show "Key (elts (keys_Push h e) ! i) = x"
    using a ok new by (auto simp: keys_Push_def index_ok_def nth_append split: if_splits)
qed

lemma heap_Push_structure:
  assumes ok: "index_ok h" and new: "m h (Key e) = None"
  shows "index_ok (heap_Push h e) \<and> mset (elts (heap_Push h e)) = add_mset e (mset (elts h))"
proof -
  let ?h' = "keys_Push h e"
  have "index_ok ?h'" using assms by (rule index_ok_keys_Push)
  moreover have "length (elts ?h') - 1 < length (elts ?h')" by (simp add: keys_Push_def)
  ultimately have "index_ok (up ?h' (length (elts ?h') - 1)) \<and>
      mset (elts (up ?h' (length (elts ?h') - 1))) = mset (elts ?h')"
    by (rule up_structure)
  then show ?thesis by (simp add: heap_Push_def Let_def) (simp add: keys_Push_def)
qed

lemma heap_Push_heap:
  assumes hp: "heap_ok (elts h)"
  shows "heap_ok (elts (heap_Push h e))"
proof -
  let ?es = "elts h @ [e]"
  have "up_pre ?es (length (elts h))"
    unfolding up_pre_def
  proof (intro conjI allI impI)
    fix l assume l: "l < length ?es" "0 < l" "l \<noteq> length (elts h)"
    then have ll: "l < length (elts h)" by simp
    moreover have "(l - 1) div 2 < length (elts h)" using parent_less [of l] l ll by simp
    ultimately show "\<not> element_less (?es ! l) (?es ! ((l - 1) div 2))"
      using hp l by (simp add: nth_append heap_ok_def)
  next
    fix l assume l: "l < length ?es" "0 < l" "(l - 1) div 2 = length (elts h)"
    then have False using parent_less [of l] by simp
    then show "\<not> element_less (?es ! l) (?es ! ((length (elts h) - 1) div 2))" ..
  qed
  then have "heap_ok (elts (up (keys_Push h e) (length (elts h))))"
    by (intro up_heap) (simp_all add: keys_Push_def)
  then show ?thesis by (simp add: heap_Push_def Let_def) (simp add: keys_Push_def)
qed

lemma mset_eq_length: "mset xs = mset ys \<Longrightarrow> length xs = length ys"
  by (metis size_mset)

subsection \<open>Sifting permutes the slice\<close>

lemma mset_up: "j < length (elts h) \<Longrightarrow> mset (elts (up h j)) = mset (elts h)"
proof (induction h j rule: up.induct)
  case (1 h j)
  let ?i = "(j - 1) div 2"
  show ?case
  proof (cases "?i = j \<or> \<not> keys_Less h j ?i")
    case True
    then have "up h j = h" by (subst up_unfold) simp
    then show ?thesis by simp
  next
    case False
    then have u: "up h j = up (keys_Swap h ?i j) ?i" by (subst up_unfold) simp
    have i: "?i < length (elts h)" using "1.prems" by simp
    have "mset (elts (up (keys_Swap h ?i j) ?i)) = mset (elts (keys_Swap h ?i j))"
      using False i by (intro "1.IH") simp_all
    then show ?thesis using u i "1.prems" by (simp add: mset_swap_elts)
  qed
qed

lemma mset_down_loop:
  "len = length (elts h) \<Longrightarrow> mset (elts (fst (down_loop h i len))) = mset (elts h)"
proof (induction h i len rule: down_loop.induct)
  case (1 h i len)
  let ?j1 = "2 * i + 1" and ?j2 = "2 * i + 2"
  let ?j = "if ?j2 < len \<and> keys_Less h ?j2 ?j1 then ?j2 else ?j1"
  show ?case
  proof (cases "?j1 \<ge> len \<or> \<not> keys_Less h ?j i")
    case True
    then have "down_loop h i len = (h, i)" by (subst down_loop_unfold) auto
    then show ?thesis by simp
  next
    case False
    then have d: "down_loop h i len = down_loop (keys_Swap h i ?j) ?j len"
      by (subst down_loop_unfold) auto
    have j: "?j < length (elts h)" and i: "i < length (elts h)"
      using False "1.prems" by auto
    have "mset (elts (fst (down_loop (keys_Swap h i ?j) ?j len))) = mset (elts (keys_Swap h i ?j))"
      using False "1.prems" by (intro "1.IH") auto
    then show ?thesis unfolding d using i j by (simp add: mset_swap_elts)
  qed
qed

lemma mset_heap_Fix: "i < length (elts h) \<Longrightarrow> mset (elts (heap_Fix h i)) = mset (elts h)"
proof -
  assume i: "i < length (elts h)"
  let ?h' = "fst (down_loop h i (length (elts h)))"
  have d: "mset (elts ?h') = mset (elts h)" by (rule mset_down_loop) simp
  then have "length (elts ?h') = length (elts h)" by (rule mset_eq_length)
  then have "mset (elts (up ?h' i)) = mset (elts ?h')" using i by (intro mset_up) simp
  then show ?thesis using d by (simp add: heap_Fix_eq)
qed

section \<open>Insert, branch by branch\<close>

lemma Insert_monitored:
  assumes "m (k s) x = Some idx" "idx < length (elts (k s))"
  shows "Insert H s x c =
     Inr ((elts (k s) ! idx)\<lparr>Count := Count (elts (k s) ! idx) + c\<rparr>,
          s\<lparr>k := heap_Fix ((k s)\<lparr>elts := (elts (k s))[idx :=
                 (elts (k s) ! idx)\<lparr>Count := Count (elts (k s) ! idx) + c\<rparr>]\<rparr>) idx\<rparr>)"
  using assms by (simp add: Insert_def Let_def)

lemma Insert_push:
  assumes "m (k s) x = None" "int (length (elts (k s))) < n s"
  shows "Insert H s x c =
     Inr (\<lparr>Key = x, Count = c, Error = 0\<rparr>,
          s\<lparr>k := heap_Push (k s) \<lparr>Key = x, Count = c, Error = 0\<rparr>\<rparr>)"
  using assms by (simp add: Insert_def Let_def)

lemma Insert_filtered:
  assumes "m (k s) x = None" "\<not> int (length (elts (k s))) < n s"
    "hashIndex H s x < length (alphas s)" "elts (k s) \<noteq> []"
    "alphas s ! hashIndex H s x + c < Count (elts (k s) ! 0)"
  shows "Insert H s x c =
     Inr (\<lparr>Key = x, Count = alphas s ! hashIndex H s x + c, Error = alphas s ! hashIndex H s x\<rparr>,
          s\<lparr>alphas := (alphas s)[hashIndex H s x := alphas s ! hashIndex H s x + c]\<rparr>)"
  using assms by (simp add: Insert_def Let_def)

lemma Insert_evict:
  assumes "m (k s) x = None" "\<not> int (length (elts (k s))) < n s"
    "hashIndex H s x < length (alphas s)" "elts (k s) \<noteq> []"
    "\<not> alphas s ! hashIndex H s x + c < Count (elts (k s) ! 0)"
    "hashIndex H s (Key (elts (k s) ! 0)) < length (alphas s)"
    "as = (alphas s)[hashIndex H s (Key (elts (k s) ! 0)) := Count (elts (k s) ! 0)]"
    "e = \<lparr>Key = x, Count = as ! hashIndex H s x + c, Error = as ! hashIndex H s x\<rparr>"
  shows "Insert H s x c =
     Inr (e, s\<lparr>k := heap_Fix \<lparr>m = ((m (k s))(Key (elts (k s) ! 0) := None))(x \<mapsto> 0),
                              elts = (elts (k s))[0 := e]\<rparr> 0,
               alphas := as\<rparr>)"
  using assms by (simp add: Insert_def Let_def)

lemma hashIndex_less: "alphas s \<noteq> [] \<Longrightarrow> hashIndex H s x < length (alphas s)"
proof -
  assume "alphas s \<noteq> []"
  then have "1 \<le> int (length (alphas s))" by (cases "alphas s") simp_all
  then have "int (unat (reduce (H x) (int (length (alphas s))))) < int (length (alphas s))"
    by (rule reduce_in_range)
  then show ?thesis by (simp only: hashIndex_def of_nat_less_iff)
qed

lemma wf_alphas: "wf s \<Longrightarrow> alphas s \<noteq> []"
  by (auto simp: wf_def)

lemma index_ok_update:
  assumes ok: "index_ok tk" and i: "i < length (elts tk)" and key: "Key e = Key (elts tk ! i)"
  shows "index_ok (tk\<lparr>elts := (elts tk)[i := e]\<rparr>)"
  using assms unfolding index_ok_def
  by (auto simp: nth_list_update)

lemma index_ok_replace_root:
  assumes ok: "index_ok tk" and ne: "elts tk \<noteq> []" and new: "m tk (Key e) = None"
  shows "index_ok \<lparr>m = ((m tk)(Key (elts tk ! 0) := None))(Key e \<mapsto> 0), elts = (elts tk)[0 := e]\<rparr>"
    (is "index_ok ?tk'")
proof -
  let ?es = "elts tk"
  have len: "0 < length ?es" using ne by simp
  have root: "m tk (Key (?es ! 0)) = Some 0" using ok len by (simp add: index_ok_def)
  have m': "m ?tk' = (m tk)(Key (?es ! 0) := None, Key e \<mapsto> 0)"
    and es': "elts ?tk' = ?es[0 := e]" by simp_all
  have bwd: "i < length ?es \<and> Key (?es[0 := e] ! i) = x"
    if a: "((m tk)(Key (?es ! 0) := None, Key e \<mapsto> 0)) x = Some i" for x i
  proof (cases "x = Key e")
    case True then show ?thesis using a len by simp
  next
    case False
    then have mx: "m tk x = Some i" and xr: "x \<noteq> Key (?es ! 0)"
      using a by (auto split: if_splits)
    then have i: "i < length ?es" "Key (?es ! i) = x" using ok by (auto simp: index_ok_def)
    have "i \<noteq> 0"
    proof
      assume "i = 0"
      then have "Key (?es ! 0) = x" using i(2) by simp
      then show False using xr by simp
    qed
    then show ?thesis using i by simp
  qed
  have fwd: "((m tk)(Key (?es ! 0) := None, Key e \<mapsto> 0)) (Key (?es[0 := e] ! i)) = Some i"
    if i: "i < length ?es" for i
  proof (cases "i = 0")
    case True then show ?thesis using len by simp
  next
    case False
    have mi: "m tk (Key (?es ! i)) = Some i" using ok i by (simp add: index_ok_def)
    then have "Key (?es ! i) \<noteq> Key e" using new by auto
    moreover have "Key (?es ! i) \<noteq> Key (?es ! 0)" using mi root False by auto
    ultimately show ?thesis using False mi by simp
  qed
  show ?thesis
    unfolding index_ok_def m' es' using bwd fwd by simp
qed

lemma index_ok_lookup:
  "index_ok tk \<Longrightarrow> m tk x = Some i \<Longrightarrow> i < length (elts tk) \<and> Key (elts tk ! i) = x"
  by (simp add: index_ok_def)

lemma Insert_cases [case_names monitored push filtered evict]:
  assumes wf: "wf s"
  obtains
    (monitored) idx e s' where
      "m (k s) x = Some idx" "idx < length (elts (k s))" "Key (elts (k s) ! idx) = x"
      "e = (elts (k s) ! idx)\<lparr>Count := Count (elts (k s) ! idx) + c\<rparr>"
      "Insert H s x c = Inr (e, s')"
      "k s' = heap_Fix ((k s)\<lparr>elts := (elts (k s))[idx := e]\<rparr>) idx"
      "alphas s' = alphas s" "n s' = n s"
      "index_ok (k s')" "mset (elts (k s')) = mset ((elts (k s))[idx := e])"
  | (push) e s' where
      "m (k s) x = None" "int (length (elts (k s))) < n s"
      "e = \<lparr>Key = x, Count = c, Error = 0\<rparr>"
      "Insert H s x c = Inr (e, s')"
      "k s' = heap_Push (k s) e"
      "alphas s' = alphas s" "n s' = n s"
      "index_ok (k s')" "mset (elts (k s')) = add_mset e (mset (elts (k s)))"
  | (filtered) e s' where
      "m (k s) x = None" "int (length (elts (k s))) = n s" "elts (k s) \<noteq> []"
      "hashIndex H s x < length (alphas s)"
      "alphas s ! hashIndex H s x + c < Count (elts (k s) ! 0)"
      "e = \<lparr>Key = x, Count = alphas s ! hashIndex H s x + c, Error = alphas s ! hashIndex H s x\<rparr>"
      "Insert H s x c = Inr (e, s')"
      "k s' = k s"
      "alphas s' = (alphas s)[hashIndex H s x := alphas s ! hashIndex H s x + c]" "n s' = n s"
  | (evict) as e s' where
      "m (k s) x = None" "int (length (elts (k s))) = n s" "elts (k s) \<noteq> []"
      "hashIndex H s x < length (alphas s)"
      "hashIndex H s (Key (elts (k s) ! 0)) < length (alphas s)"
      "\<not> alphas s ! hashIndex H s x + c < Count (elts (k s) ! 0)"
      "as = (alphas s)[hashIndex H s (Key (elts (k s) ! 0)) := Count (elts (k s) ! 0)]"
      "e = \<lparr>Key = x, Count = as ! hashIndex H s x + c, Error = as ! hashIndex H s x\<rparr>"
      "Insert H s x c = Inr (e, s')"
      "k s' = heap_Fix \<lparr>m = ((m (k s))(Key (elts (k s) ! 0) := None))(x \<mapsto> 0),
                        elts = (elts (k s))[0 := e]\<rparr> 0"
      "alphas s' = as" "n s' = n s"
      "index_ok (k s')" "mset (elts (k s')) = mset ((elts (k s))[0 := e])"
proof -
  let ?es = "elts (k s)"
  have ok: "index_ok (k s)" and n1: "1 \<le> n s" and len: "int (length ?es) \<le> n s"
    using wf by (auto simp: wf_def)
  have ane: "alphas s \<noteq> []" using wf by (rule wf_alphas)
  show ?thesis
  proof (cases "m (k s) x")
    case (Some idx)
    then have idx: "idx < length ?es" and key: "Key (?es ! idx) = x"
      using index_ok_lookup [OF ok] by auto
    define e where "e = (?es ! idx)\<lparr>Count := Count (?es ! idx) + c\<rparr>"
    let ?tk = "(k s)\<lparr>elts := ?es[idx := e]\<rparr>"
    have "index_ok ?tk" using ok idx by (rule index_ok_update) (simp add: e_def)
    moreover have "idx < length (elts ?tk)" using idx by simp
    ultimately have f: "index_ok (heap_Fix ?tk idx)" "mset (elts (heap_Fix ?tk idx)) = mset (elts ?tk)"
      using heap_Fix_structure [of ?tk idx] by simp_all
    show ?thesis
    proof (rule monitored [OF Some idx key e_def])
      show "Insert H s x c = Inr (e, s\<lparr>k := heap_Fix ?tk idx\<rparr>)"
        using Insert_monitored [OF Some idx, of H c] by (simp add: e_def)
    qed (use f in simp_all)
  next
    case None
    show ?thesis
    proof (cases "int (length ?es) < n s")
      case True
      define e where "e = \<lparr>Key = x, Count = c, Error = 0\<rparr>"
      have p: "index_ok (heap_Push (k s) e)"
        "mset (elts (heap_Push (k s) e)) = add_mset e (mset ?es)"
        using heap_Push_structure [OF ok, of e] None by (simp_all add: e_def)
      show ?thesis
      proof (rule push [OF None True e_def])
        show "Insert H s x c = Inr (e, s\<lparr>k := heap_Push (k s) e\<rparr>)"
          using Insert_push [OF None True, of H c] by (simp add: e_def)
      qed (use p in simp_all)
    next
      case False
      then have full: "int (length ?es) = n s" using len by simp
      have ne: "?es \<noteq> []" using False n1 by auto
      have xh: "hashIndex H s x < length (alphas s)" using ane by (rule hashIndex_less)
      show ?thesis
      proof (cases "alphas s ! hashIndex H s x + c < Count (?es ! 0)")
        case True
        show ?thesis
          by (rule filtered [OF None full ne xh True refl Insert_filtered [OF None False xh ne True]])
            simp_all
      next
        case nf: False
        have mh: "hashIndex H s (Key (?es ! 0)) < length (alphas s)" using ane by (rule hashIndex_less)
        define as where "as = (alphas s)[hashIndex H s (Key (?es ! 0)) := Count (?es ! 0)]"
        define e where "e = \<lparr>Key = x, Count = as ! hashIndex H s x + c, Error = as ! hashIndex H s x\<rparr>"
        let ?tk = "\<lparr>m = ((m (k s))(Key (?es ! 0) := None))(x \<mapsto> 0), elts = ?es[0 := e]\<rparr>"
        have "index_ok ?tk"
          using index_ok_replace_root [OF ok ne, of e] None by (simp add: e_def)
        moreover have "0 < length (elts ?tk)" using ne by simp
        ultimately have f: "index_ok (heap_Fix ?tk 0)" "mset (elts (heap_Fix ?tk 0)) = mset (elts ?tk)"
          using heap_Fix_structure [of ?tk 0] by simp_all
        show ?thesis
          by (rule evict [OF None full ne xh mh nf as_def e_def
                Insert_evict [OF None False xh ne nf mh as_def e_def]])
            (use f in simp_all)
      qed
    qed
  qed
qed

lemma Insert_wf:
  assumes wf: "wf s"
  shows "\<exists>e s'. Insert H s x c = Inr (e, s') \<and> wf s' \<and> n s' = n s \<and>
           length (alphas s') = length (alphas s)"
  using wf
proof (cases rule: Insert_cases [of s x c H])
  case (monitored idx e s')
  have "length (elts (k s')) = length (elts (k s))"
    using mset_eq_length [OF monitored(10)] by simp
  then have "wf s'" using wf monitored by (simp add: wf_def)
  then show ?thesis using monitored by simp
next
  case (push e s')
  have "size (mset (elts (k s'))) = Suc (length (elts (k s)))" using push(9) by simp
  then have "length (elts (k s')) = Suc (length (elts (k s)))" by simp
  then have "wf s'" using wf push by (simp add: wf_def)
  then show ?thesis using push by simp
next
  case (filtered e s')
  have "wf s'" using wf filtered by (simp add: wf_def)
  then show ?thesis using filtered by simp
next
  case (evict as e s')
  have "length (elts (k s')) = length (elts (k s))"
    using mset_eq_length [OF evict(14)] by simp
  then have "wf s'" using wf evict by (simp add: wf_def)
  then show ?thesis using evict by simp
qed

section \<open>Evaluation on concrete inputs\<close>

lemma hashIndex_example_1: "hashIndex example_hash \<lparr>n = 1, k = tk, alphas = [a0, a1, a2, a3, a4, a5]\<rparr> [c1] = 0"
  by (simp add: hashIndex_def example_hash_def unat_reduce_small)

lemma hashIndex_example_2: "hashIndex example_hash \<lparr>n = 1, k = tk, alphas = [a0, a1, a2, a3, a4, a5]\<rparr> [c1, c2] = 1"
  by (simp add: hashIndex_def example_hash_def unat_reduce_small)

lemmas eval_simps = Insert_def Let_def hashIndex_example_1 hashIndex_example_2 heap_Fix_eq heap_Push_def
  keys_Push_def keys_Swap_def keys_Less_def element_less_def swap_elts_def down_loop_unfold up_unfold

lemma int_low32: "int (unat (ucast (h :: 64 word) :: 32 word)) = uint h mod 2 ^ 32"
  by (simp add: unsigned_ucast_eq take_bit_eq_mod zmod_int)

lemma replicate_6: "replicate 6 x = [x, x, x, x, x, x]"
  by (simp add: numeral_eq_Suc)

lemma New_1: "New 1 = Inr \<lparr>n = 1, k = \<lparr>m = Map.empty, elts = []\<rparr>, alphas = [0, 0, 0, 0, 0, 0]\<rparr>"
  by (simp add: New_def replicate_6)

lemma reduce_eq_spec:
  assumes "0 \<le> len" "len \<le> 2 ^ 32"
  shows "int (unat (reduce h len)) = reduce_spec h len"
proof -
  have "int (unat (reduce h len)) = int (unat (ucast h :: 32 word) * nat len div 2 ^ 32)"
    using assms by (simp only: unat_reduce_small)
  also have "\<dots> = int (unat (ucast h :: 32 word)) * len div 2 ^ 32"
    using assms by (simp add: zdiv_int)
  finally show ?thesis by (simp only: int_low32 reduce_spec_def)
qed

lemma New_Inr: "New cap = Inr s \<Longrightarrow> 0 \<le> cap \<and> s = \<lparr>n = cap, k = \<lparr>m = Map.empty, elts = []\<rparr>, alphas = replicate (nat (cap * 6)) 0\<rparr>"
  by (auto simp: New_def split: if_splits)

lemmas example_simps = example_state_def eval_simps

section \<open>The hash index stays in the table\<close>

text \<open>
  Claim C9 (hash-index range safety), as amended. For every capacity \<open>cap \<ge> 1\<close> and every
  64-bit hash value \<open>h\<close>, \<^verbatim>\<open>reduce(h, 6 * cap)\<close> is an index in \<open>[0, 6 * cap)\<close>; it is equal to
  \<open>floor(low32(h) * 6 * cap / 2^32)\<close> whenever the table has at most \<open>2^32\<close> cells. The table that
  \<^verbatim>\<open>New(cap)\<close> allocates has \<open>6 * cap\<close> cells and the index computed for any key is within it.
\<close>

theorem reduce_index_in_table:
  assumes "1 \<le> cap"
  shows "int (unat (reduce h (6 * cap))) < 6 * cap \<and>
         (6 * cap \<le> 2 ^ 32 \<longrightarrow> int (unat (reduce h (6 * cap))) = reduce_spec h (6 * cap)) \<and>
         (New cap = Inr s \<longrightarrow> int (length (alphas s)) = 6 * cap \<and> hashIndex H s x < length (alphas s))"
proof (intro conjI impI)
  show "int (unat (reduce h (6 * cap))) < 6 * cap"
    using assms by (intro reduce_in_range) simp
  show "int (unat (reduce h (6 * cap))) = reduce_spec h (6 * cap)" if "6 * cap \<le> 2 ^ 32"
    using assms that by (intro reduce_eq_spec) simp_all
  assume "New cap = Inr s"
  then have s: "alphas s = replicate (nat (cap * 6)) 0" using New_Inr by fastforce
  then show "int (length (alphas s)) = 6 * cap" using assms by simp
  have "alphas s \<noteq> []" using s assms by auto
  then show "hashIndex H s x < length (alphas s)" by (rule hashIndex_less)
qed

theorem reduce_index_in_table_witness:
  "(1::int) \<le> 1 \<and> int (unat (reduce 0x60000000 (6 * 1))) < 6 * 1 \<and>
   int (unat (reduce 0x60000000 (6 * 1))) = reduce_spec 0x60000000 (6 * 1) \<and>
   reduce_spec 0x60000000 (6 * 1) = 2 \<and>
   New 1 = Inr \<lparr>n = 1, k = \<lparr>m = Map.empty, elts = []\<rparr>, alphas = [0, 0, 0, 0, 0, 0]\<rparr> \<and>
   hashIndex example_hash \<lparr>n = 1, k = \<lparr>m = Map.empty, elts = []\<rparr>, alphas = [0, 0, 0, 0, 0, 0]\<rparr> ''bb'' < 6"
  using reduce_index_in_table [of 1 "0x60000000" "\<lparr>n = 1, k = \<lparr>m = Map.empty, elts = []\<rparr>, alphas = [0, 0, 0, 0, 0, 0]\<rparr>" example_hash "''bb''"]
  by (simp add: New_1 reduce_spec_def)

text \<open>
  The equality with \<open>floor(low32(h) * 6 * cap / 2^32)\<close> that claim C9 states for every capacity
  fails once the table has more than \<open>2^32\<close> cells: the product wraps at 64 bits and the
  result is cut to 32 bits. At \<open>cap = 715827883\<close> (a table of \<open>2^32 + 2\<close> cells) and
  \<open>h = 0xFFFFFFFF\<close> the code returns 0 and the formula gives \<open>2^32\<close>.
\<close>

theorem reduce_wraps_counterexample:
  "(1::int) \<le> 715827883 \<and>
   unat (reduce 0xFFFFFFFF (6 * 715827883)) = 0 \<and>
   reduce_spec 0xFFFFFFFF (6 * 715827883) = 4294967296"
  by (simp add: unat_reduce reduce_spec_def)

section \<open>Construction\<close>

text \<open>
  Claim C5 says that \<^verbatim>\<open>New(n)\<close> fails with a construction error for every \<open>n \<le> 0\<close>. \<^verbatim>\<open>New\<close>
  has no error result and no check: at \<open>n = 0\<close> it returns an estimator.
\<close>

theorem New_zero_counterexample:
  "New 0 = Inr \<lparr>n = 0, k = \<lparr>m = Map.empty, elts = []\<rparr>, alphas = []\<rparr>"
  by (simp add: New_def)

text \<open>
  Claim C5, as amended. \<^verbatim>\<open>New\<close> validates nothing itself. For \<open>n < 0\<close> the allocation of the
  slice panics, so no estimator is produced. \<^verbatim>\<open>New(0)\<close> returns an estimator with an empty
  monitored set and an empty error table; on it every \<^verbatim>\<open>Insert\<close> and every \<^verbatim>\<open>Estimate\<close> panics
  with an index out of range, and \<^verbatim>\<open>Keys\<close> returns the empty sequence.
\<close>

theorem New_nonpositive:
  "(cap < 0 \<longrightarrow> New cap = Inl MakesliceOutOfRange) \<and>
   New 0 = Inr \<lparr>n = 0, k = \<lparr>m = Map.empty, elts = []\<rparr>, alphas = []\<rparr> \<and>
   Insert H \<lparr>n = 0, k = \<lparr>m = Map.empty, elts = []\<rparr>, alphas = []\<rparr> x cnt = Inl IndexOutOfRange \<and>
   Estimate H \<lparr>n = 0, k = \<lparr>m = Map.empty, elts = []\<rparr>, alphas = []\<rparr> x = Inl IndexOutOfRange \<and>
   Keys \<lparr>n = 0, k = \<lparr>m = Map.empty, elts = []\<rparr>, alphas = []\<rparr> =
     ([], \<lparr>n = 0, k = \<lparr>m = Map.empty, elts = []\<rparr>, alphas = []\<rparr>)"
  by (simp add: New_def Insert_def Estimate_def Keys_def Let_def)

theorem New_nonpositive_witness:
  "New (- 1) = Inl MakesliceOutOfRange \<and>
   Insert example_hash \<lparr>n = 0, k = \<lparr>m = Map.empty, elts = []\<rparr>, alphas = []\<rparr> ''a'' 1 = Inl IndexOutOfRange"
  using New_nonpositive [of "- 1" example_hash "''a''" 1] by simp

section \<open>The filtered branch\<close>

text \<open>
  Claim C1. The monitored set is full, \<open>x\<close> is not monitored, and \<open>h + cnt\<close> is below the count
  of slot 0 (the \<^verbatim>\<open>peekMin\<close> of the specification; a value below the minimum monitored count is
  below the count of slot 0), where \<open>h\<close> is the cell of \<open>x\<close> in the error table. Then
  \<^verbatim>\<open>Insert(x, cnt)\<close> returns the element \<open>(x, h + cnt, h)\<close>, leaves the monitored set as it was
  (so \<open>x\<close> is not added), adds \<open>cnt\<close> to the cell of \<open>x\<close> and changes no other cell.
\<close>

theorem Insert_filtered_estimate:
  assumes full: "int (length (elts (k s))) = n s"
    and unmonitored: "m (k s) x = None"
    and nonempty: "elts (k s) \<noteq> []" "alphas s \<noteq> []"
    and cold: "alphas s ! hashIndex H s x + cnt < Count (elts (k s) ! 0)"
  shows "\<exists>s'. Insert H s x cnt =
            Inr (\<lparr>Key = x, Count = alphas s ! hashIndex H s x + cnt, Error = alphas s ! hashIndex H s x\<rparr>, s') \<and>
          k s' = k s \<and> m (k s') x = None \<and> n s' = n s \<and>
          length (alphas s') = length (alphas s) \<and>
          alphas s' ! hashIndex H s x = alphas s ! hashIndex H s x + cnt \<and>
          (\<forall>i < length (alphas s). i \<noteq> hashIndex H s x \<longrightarrow> alphas s' ! i = alphas s ! i)"
proof -
  have xh: "hashIndex H s x < length (alphas s)" using nonempty(2) by (rule hashIndex_less)
  have nf: "\<not> int (length (elts (k s))) < n s" using full by simp
  show ?thesis
    using Insert_filtered [OF unmonitored nf xh nonempty(1) cold] unmonitored xh by simp
qed

theorem Insert_filtered_estimate_witness:
  "int (length (elts (k (example_state 4 10)))) = n (example_state 4 10) \<and>
   m (k (example_state 4 10)) ''c'' = None \<and>
   elts (k (example_state 4 10)) \<noteq> [] \<and> alphas (example_state 4 10) \<noteq> [] \<and>
   alphas (example_state 4 10) ! hashIndex example_hash (example_state 4 10) ''c'' + 3
     < Count (elts (k (example_state 4 10)) ! 0) \<and>
   Insert example_hash (example_state 4 10) ''c'' 3 =
     Inr (\<lparr>Key = ''c'', Count = 7, Error = 4\<rparr>, example_state 7 10)"
proof -
  have h1: "int (length (elts (k (example_state 4 10)))) = n (example_state 4 10)"
    and h2: "m (k (example_state 4 10)) ''c'' = None"
    and h3: "elts (k (example_state 4 10)) \<noteq> []" "alphas (example_state 4 10) \<noteq> []"
    and h4: "alphas (example_state 4 10) ! hashIndex example_hash (example_state 4 10) ''c'' + 3
             < Count (elts (k (example_state 4 10)) ! 0)"
    by (simp_all add: example_simps)
  show ?thesis
    using Insert_filtered_estimate [OF h1 h2 h3 h4] h1 h2 h3 h4
    by (simp add: example_simps)
qed

section \<open>The eviction branch\<close>

text \<open>
  Claim C2 says that the evicted count is archived as the maximum of the cell and the evicted
  count, for every prior value of the cell. The code assigns the evicted count. In the state
  below, cell 0 holds 9, the minimum \<open>''a''\<close> has count 5 and hashes to cell 0; inserting
  \<open>(''bb'', 10)\<close> evicts \<open>''a''\<close> and leaves 5 in cell 0, not \<open>max 9 5\<close>. The state is the
  result of three \<^verbatim>\<open>Insert\<close> calls on a new estimator, one of them with a negative count, which
  the code accepts.
\<close>

theorem eviction_not_max_counterexample:
  "Inserts example_hash \<lparr>n = 1, k = \<lparr>m = Map.empty, elts = []\<rparr>, alphas = [0, 0, 0, 0, 0, 0]\<rparr>
     [(''a'', 10), (''c'', 9), (''a'', - 5)] =
     Inr ([\<lparr>Key = ''a'', Count = 10, Error = 0\<rparr>, \<lparr>Key = ''c'', Count = 9, Error = 0\<rparr>,
           \<lparr>Key = ''a'', Count = 5, Error = 0\<rparr>], example_state 9 5) \<and>
   Insert example_hash (example_state 9 5) ''bb'' 10 =
     Inr (\<lparr>Key = ''bb'', Count = 10, Error = 0\<rparr>,
          \<lparr>n = 1, k = \<lparr>m = [''bb'' \<mapsto> 0], elts = [\<lparr>Key = ''bb'', Count = 10, Error = 0\<rparr>]\<rparr>,
           alphas = [5, 0, 0, 0, 0, 0]\<rparr>) \<and>
   Key (elts (k (example_state 9 5)) ! 0) = ''a'' \<and>
   Count (elts (k (example_state 9 5)) ! 0) = 5 \<and>
   hashIndex example_hash (example_state 9 5) ''a'' = 0 \<and>
   alphas (example_state 9 5) ! 0 = 9 \<and>
   [5, 0, 0, 0, 0, 0] ! 0 \<noteq> max (9 :: int) 5"
  by (simp add: example_simps)

text \<open>
  Claim C2, as amended. Whenever \<^verbatim>\<open>Insert\<close> evicts the entry of slot 0, the cell of the
  evicted key holds the evicted count afterwards (a plain assignment). This is the maximum
  of the prior value and the evicted count exactly when the prior value does not exceed the
  evicted count.
\<close>

theorem eviction_overwrites_cell:
  assumes unmonitored: "m (k s) x = None"
    and full: "int (length (elts (k s))) = n s"
    and nonempty: "elts (k s) \<noteq> []" "alphas s \<noteq> []"
    and competitive: "\<not> alphas s ! hashIndex H s x + cnt < Count (elts (k s) ! 0)"
  shows "\<exists>e s'. Insert H s x cnt = Inr (e, s') \<and>
           length (alphas s') = length (alphas s) \<and>
           alphas s' ! hashIndex H s (Key (elts (k s) ! 0)) = Count (elts (k s) ! 0) \<and>
           (alphas s' ! hashIndex H s (Key (elts (k s) ! 0)) =
              max (alphas s ! hashIndex H s (Key (elts (k s) ! 0))) (Count (elts (k s) ! 0))
            \<longleftrightarrow> alphas s ! hashIndex H s (Key (elts (k s) ! 0)) \<le> Count (elts (k s) ! 0))"
proof -
  have xh: "hashIndex H s x < length (alphas s)"
    and mh: "hashIndex H s (Key (elts (k s) ! 0)) < length (alphas s)"
    using nonempty(2) by (rule hashIndex_less)+
  have nf: "\<not> int (length (elts (k s))) < n s" using full by simp
  show ?thesis
    using Insert_evict [OF unmonitored nf xh nonempty(1) competitive mh refl refl] mh
    by auto
qed

theorem eviction_overwrites_cell_witness:
  "m (k (example_state 2 5)) ''bb'' = None \<and>
   int (length (elts (k (example_state 2 5)))) = n (example_state 2 5) \<and>
   elts (k (example_state 2 5)) \<noteq> [] \<and> alphas (example_state 2 5) \<noteq> [] \<and>
   \<not> alphas (example_state 2 5) ! hashIndex example_hash (example_state 2 5) ''bb'' + 10
       < Count (elts (k (example_state 2 5)) ! 0) \<and>
   Insert example_hash (example_state 2 5) ''bb'' 10 =
     Inr (\<lparr>Key = ''bb'', Count = 10, Error = 0\<rparr>,
          \<lparr>n = 1, k = \<lparr>m = [''bb'' \<mapsto> 0], elts = [\<lparr>Key = ''bb'', Count = 10, Error = 0\<rparr>]\<rparr>,
           alphas = [5, 0, 0, 0, 0, 0]\<rparr>)"
proof -
  have h1: "m (k (example_state 2 5)) ''bb'' = None"
    and h2: "int (length (elts (k (example_state 2 5)))) = n (example_state 2 5)"
    and h3: "elts (k (example_state 2 5)) \<noteq> []" "alphas (example_state 2 5) \<noteq> []"
    and h4: "\<not> alphas (example_state 2 5) ! hashIndex example_hash (example_state 2 5) ''bb'' + 10
               < Count (elts (k (example_state 2 5)) ! 0)"
    by (simp_all add: example_simps)
  show ?thesis
    using eviction_overwrites_cell [OF h1 h2 h3 h4] h1 h2 h3 h4
    by (simp add: example_simps)
qed

text \<open>
  Claim C4 says that the replacement entry carries the value \<open>h\<close> that the cell of \<open>x\<close> had at
  the start of the call, also when \<open>x\<close> and the evicted key share a cell. The code reads the
  cell after it has archived the evicted count. After \<^verbatim>\<open>New(1)\<close> and \<^verbatim>\<open>Insert(''a'', 5)\<close>, the key
  \<open>''c''\<close> shares cell 0 with \<open>''a''\<close>, the cell holds 0, and \<^verbatim>\<open>Insert(''c'', 10)\<close> returns
  \<open>(''c'', 15, 5)\<close>, not \<open>(''c'', 10, 0)\<close>.
\<close>

theorem eviction_error_not_initial_cell_counterexample:
  "New 1 = Inr \<lparr>n = 1, k = \<lparr>m = Map.empty, elts = []\<rparr>, alphas = [0, 0, 0, 0, 0, 0]\<rparr> \<and>
   Inserts example_hash \<lparr>n = 1, k = \<lparr>m = Map.empty, elts = []\<rparr>, alphas = [0, 0, 0, 0, 0, 0]\<rparr>
     [(''a'', 5)] = Inr ([\<lparr>Key = ''a'', Count = 5, Error = 0\<rparr>], example_state 0 5) \<and>
   alphas (example_state 0 5) ! hashIndex example_hash (example_state 0 5) ''c'' = 0 \<and>
   Insert example_hash (example_state 0 5) ''c'' 10 =
     Inr (\<lparr>Key = ''c'', Count = 15, Error = 5\<rparr>,
          \<lparr>n = 1, k = \<lparr>m = [''c'' \<mapsto> 0], elts = [\<lparr>Key = ''c'', Count = 15, Error = 5\<rparr>]\<rparr>,
           alphas = [5, 0, 0, 0, 0, 0]\<rparr>) \<and>
   \<lparr>Key = ''c'', Count = 15, Error = 5\<rparr> \<noteq> \<lparr>Key = ''c'', Count = 0 + 10, Error = 0\<rparr>"
  by (simp add: New_1 example_simps)

text \<open>
  Claim C4, as amended. In the eviction case the replacement entry and the returned element
  carry count \<open>h' + cnt\<close> and error \<open>h'\<close>, where \<open>h'\<close> is the cell of \<open>x\<close> as read after the
  evicted count has been archived: the value the cell had at the start of the call when
  \<open>x\<close> and the evicted key have different cells, and the evicted count when they share one.
\<close>

theorem eviction_reads_cell_after_archival:
  assumes unmonitored: "m (k s) x = None"
    and full: "int (length (elts (k s))) = n s"
    and nonempty: "elts (k s) \<noteq> []" "alphas s \<noteq> []"
    and competitive: "\<not> alphas s ! hashIndex H s x + cnt < Count (elts (k s) ! 0)"
  shows "\<exists>h' s'.
           h' = (if hashIndex H s x = hashIndex H s (Key (elts (k s) ! 0))
                 then Count (elts (k s) ! 0) else alphas s ! hashIndex H s x) \<and>
           Insert H s x cnt = Inr (\<lparr>Key = x, Count = h' + cnt, Error = h'\<rparr>, s') \<and>
           \<lparr>Key = x, Count = h' + cnt, Error = h'\<rparr> \<in> set (elts (k s'))"
proof -
  let ?es = "elts (k s)"
  let ?xh = "hashIndex H s x" and ?mk = "hashIndex H s (Key (?es ! 0))"
  have xh: "?xh < length (alphas s)" and mh: "?mk < length (alphas s)"
    using nonempty(2) by (rule hashIndex_less)+
  have nf: "\<not> int (length ?es) < n s" using full by simp
  define as where "as = (alphas s)[?mk := Count (?es ! 0)]"
  define e where "e = \<lparr>Key = x, Count = as ! ?xh + cnt, Error = as ! ?xh\<rparr>"
  let ?tk = "\<lparr>m = ((m (k s))(Key (?es ! 0) := None))(x \<mapsto> 0), elts = ?es[0 := e]\<rparr>"
  have ins: "Insert H s x cnt = Inr (e, s\<lparr>k := heap_Fix ?tk 0, alphas := as\<rparr>)"
    by (rule Insert_evict [OF unmonitored nf xh nonempty(1) competitive mh as_def e_def])
  have h': "as ! ?xh = (if ?xh = ?mk then Count (?es ! 0) else alphas s ! ?xh)"
    using xh mh by (simp add: as_def)
  have "mset (elts (heap_Fix ?tk 0)) = mset (?es[0 := e])"
    using nonempty(1) mset_heap_Fix [of 0 ?tk] by simp
  then have "set (elts (heap_Fix ?tk 0)) = set (?es[0 := e])"
    by (metis set_mset_mset)
  moreover have "e \<in> set (?es[0 := e])"
    using nonempty(1) by (simp add: set_update_memI)
  ultimately have mem: "e \<in> set (elts (heap_Fix ?tk 0))" by simp
  show ?thesis
    using ins mem h' unfolding e_def by auto
qed

theorem eviction_reads_cell_after_archival_witness:
  "m (k (example_state 0 5)) ''c'' = None \<and>
   int (length (elts (k (example_state 0 5)))) = n (example_state 0 5) \<and>
   elts (k (example_state 0 5)) \<noteq> [] \<and> alphas (example_state 0 5) \<noteq> [] \<and>
   \<not> alphas (example_state 0 5) ! hashIndex example_hash (example_state 0 5) ''c'' + 10
       < Count (elts (k (example_state 0 5)) ! 0) \<and>
   hashIndex example_hash (example_state 0 5) ''c'' =
     hashIndex example_hash (example_state 0 5) (Key (elts (k (example_state 0 5)) ! 0)) \<and>
   Insert example_hash (example_state 0 5) ''c'' 10 =
     Inr (\<lparr>Key = ''c'', Count = 15, Error = 5\<rparr>,
          \<lparr>n = 1, k = \<lparr>m = [''c'' \<mapsto> 0], elts = [\<lparr>Key = ''c'', Count = 15, Error = 5\<rparr>]\<rparr>,
           alphas = [5, 0, 0, 0, 0, 0]\<rparr>)"
proof -
  have h1: "m (k (example_state 0 5)) ''c'' = None"
    and h2: "int (length (elts (k (example_state 0 5)))) = n (example_state 0 5)"
    and h3: "elts (k (example_state 0 5)) \<noteq> []" "alphas (example_state 0 5) \<noteq> []"
    and h4: "\<not> alphas (example_state 0 5) ! hashIndex example_hash (example_state 0 5) ''c'' + 10
               < Count (elts (k (example_state 0 5)) ! 0)"
    by (simp_all add: example_simps)
  show ?thesis
    using eviction_reads_cell_after_archival [OF h1 h2 h3 h4] h1 h2 h3 h4
    by (simp add: example_simps)
qed

section \<open>The report\<close>

lemma set_sort_insert: "set (sort_insert lt x ys) = insert x (set ys)"
  by (induction ys) auto

lemma mset_sort_insert: "mset (sort_insert lt x ys) = add_mset x (mset ys)"
  by (induction ys) auto

lemma mset_sort_Sort: "mset (sort_Sort lt xs) = mset xs"
  by (induction xs) (auto simp: mset_sort_insert)

lemma Less_imp_order: "elementsByCountDescending_Less a b \<Longrightarrow> count_desc_key_asc a b"
  by (auto simp: elementsByCountDescending_Less_def count_desc_key_asc_def)

lemma not_Less_imp_order: "\<not> elementsByCountDescending_Less a b \<Longrightarrow> count_desc_key_asc b a"
  by (auto simp: elementsByCountDescending_Less_def count_desc_key_asc_def)

lemma order_trans: "count_desc_key_asc a b \<Longrightarrow> count_desc_key_asc b c \<Longrightarrow> count_desc_key_asc a c"
  by (auto simp: count_desc_key_asc_def)

lemma sorted_sort_insert:
  "sorted_wrt count_desc_key_asc ys \<Longrightarrow>
   sorted_wrt count_desc_key_asc (sort_insert elementsByCountDescending_Less x ys)"
proof (induction ys)
  case Nil
  then show ?case by simp
next
  case (Cons y ys)
  show ?case
  proof (cases "elementsByCountDescending_Less x y")
    case True
    then have xy: "count_desc_key_asc x y" by (rule Less_imp_order)
    have "\<forall>z \<in> set ys. count_desc_key_asc x z"
      using Cons.prems xy order_trans by auto
    then show ?thesis using True xy Cons.prems by simp
  next
    case False
    then have "count_desc_key_asc y x" by (rule not_Less_imp_order)
    then show ?thesis using False Cons by (auto simp: set_sort_insert)
  qed
qed

lemma sorted_sort_Sort:
  "sorted_wrt count_desc_key_asc (sort_Sort elementsByCountDescending_Less xs)"
  by (induction xs) (simp_all add: sorted_sort_insert)

lemma map_Element_id: "map (\<lambda>e. \<lparr>Key = Key e, Count = Count e, Error = Error e\<rparr>) xs = xs"
  by (induction xs) simp_all

text \<open>
  Claim C8. For every estimator, \<^verbatim>\<open>Keys\<close> returns the monitored entries (the same entries,
  with multiplicity), ordered by count descending with ties broken by key ascending, and
  leaves the estimator as it was.
\<close>

theorem Keys_sorted_snapshot:
  "mset (fst (Keys s)) = mset (elts (k s)) \<and>
   sorted_wrt count_desc_key_asc (fst (Keys s)) \<and>
   snd (Keys s) = s"
  by (simp add: Keys_def Let_def map_Element_id mset_sort_Sort sorted_sort_Sort)

lemma Keys_example:
  "Keys \<lparr>n = 3, k = \<lparr>m = [''b'' \<mapsto> 0, ''c'' \<mapsto> 1, ''a'' \<mapsto> 2],
        elts = [\<lparr>Key = ''b'', Count = 3, Error = 0\<rparr>, \<lparr>Key = ''c'', Count = 5, Error = 1\<rparr>,
                \<lparr>Key = ''a'', Count = 5, Error = 0\<rparr>]\<rparr>, alphas = replicate 18 0\<rparr> =
   ([\<lparr>Key = ''a'', Count = 5, Error = 0\<rparr>, \<lparr>Key = ''c'', Count = 5, Error = 1\<rparr>,
     \<lparr>Key = ''b'', Count = 3, Error = 0\<rparr>],
    \<lparr>n = 3, k = \<lparr>m = [''b'' \<mapsto> 0, ''c'' \<mapsto> 1, ''a'' \<mapsto> 2],
        elts = [\<lparr>Key = ''b'', Count = 3, Error = 0\<rparr>, \<lparr>Key = ''c'', Count = 5, Error = 1\<rparr>,
                \<lparr>Key = ''a'', Count = 5, Error = 0\<rparr>]\<rparr>, alphas = replicate 18 0\<rparr>)"
  by (simp add: Keys_def Let_def elementsByCountDescending_Less_def)

section \<open>Runs from a new estimator\<close>

lemma index_ok_dom: "index_ok tk \<Longrightarrow> dom (m tk) = Key ` set (elts tk)"
proof (intro set_eqI iffI)
  fix x assume ok: "index_ok tk" and "x \<in> dom (m tk)"
  then obtain i where "m tk x = Some i" by auto
  then have "i < length (elts tk)" "Key (elts tk ! i) = x"
    using index_ok_lookup [OF ok] by auto
  then show "x \<in> Key ` set (elts tk)" by (metis imageI nth_mem)
next
  fix x assume ok: "index_ok tk" and "x \<in> Key ` set (elts tk)"
  then obtain i where "i < length (elts tk)" "x = Key (elts tk ! i)"
    by (auto simp: in_set_conv_nth)
  then show "x \<in> dom (m tk)" using ok by (auto simp: index_ok_def)
qed

lemma index_ok_card:
  assumes "index_ok tk"
  shows "finite (dom (m tk)) \<and> card (dom (m tk)) \<le> length (elts tk)"
proof -
  have "card (Key ` set (elts tk)) \<le> card (set (elts tk))" by (rule card_image_le) simp
  also have "\<dots> \<le> length (elts tk)" by (rule card_length)
  finally show ?thesis using index_ok_dom [OF assms] by simp
qed

lemma New_wf:
  assumes "1 \<le> cap" "New cap = Inr s"
  shows "wf s" "inv s" "sound s" "n s = cap"
proof -
  have s: "s = \<lparr>n = cap, k = \<lparr>m = Map.empty, elts = []\<rparr>, alphas = replicate (nat (cap * 6)) 0\<rparr>"
    using New_Inr [OF assms(2)] by simp
  show "wf s" using assms(1) by (simp add: s wf_def index_ok_def)
  then show "inv s" by (simp add: s inv_def heap_ok_def)
  show "sound s" by (simp add: s sound_def)
  show "n s = cap" by (simp add: s)
qed

lemma Inserts_wf:
  "wf s \<Longrightarrow> \<exists>es s'. Inserts H s ops = Inr (es, s') \<and> wf s' \<and> n s' = n s \<and> length es = length ops"
proof (induction ops arbitrary: s)
  case Nil
  then show ?case by simp
next
  case (Cons op ops)
  obtain x c where op: "op = (x, c)" by (cases op)
  obtain e s1 where i: "Insert H s x c = Inr (e, s1)" "wf s1" "n s1 = n s"
    using Insert_wf [OF Cons.prems, of H x c] by blast
  obtain es s' where r: "Inserts H s1 ops = Inr (es, s')" "wf s'" "n s' = n s1" "length es = length ops"
    using Cons.IH [OF i(2)] by blast
  show ?case using i r by (simp add: op)
qed

text \<open>
  Claim C6 (capacity bound). From \<^verbatim>\<open>New(cap)\<close> with \<open>cap \<ge> 1\<close>, every finite sequence of
  \<^verbatim>\<open>Insert\<close> calls, with any keys and any counts, runs without a panic and ends with at most
  \<open>cap\<close> entries in the slice and in the key index. The sequence is arbitrary, so the bound
  holds after every call of a run.
\<close>

theorem capacity_bound:
  assumes "1 \<le> cap" and "New cap = Inr s0"
  shows "\<exists>es s. Inserts H s0 ops = Inr (es, s) \<and>
           int (length (elts (k s))) \<le> cap \<and>
           finite (dom (m (k s))) \<and> int (card (dom (m (k s)))) \<le> cap"
proof -
  have "wf s0" "n s0 = cap" using New_wf [OF assms] by simp_all
  then obtain es s where r: "Inserts H s0 ops = Inr (es, s)" "wf s" "n s = cap"
    using Inserts_wf [of s0 H ops] by auto
  have len: "int (length (elts (k s))) \<le> cap" and ok: "index_ok (k s)"
    using r by (auto simp: wf_def)
  have "finite (dom (m (k s)))" "int (card (dom (m (k s)))) \<le> cap"
    using index_ok_card [OF ok] len by auto
  then show ?thesis using r len by blast
qed

theorem capacity_bound_witness:
  "(1::int) \<le> 1 \<and>
   New 1 = Inr \<lparr>n = 1, k = \<lparr>m = Map.empty, elts = []\<rparr>, alphas = [0, 0, 0, 0, 0, 0]\<rparr> \<and>
   Inserts example_hash \<lparr>n = 1, k = \<lparr>m = Map.empty, elts = []\<rparr>, alphas = [0, 0, 0, 0, 0, 0]\<rparr>
     [(''a'', 5), (''bb'', 3), (''bb'', 3), (''a'', - 2)] =
   Inr ([\<lparr>Key = ''a'', Count = 5, Error = 0\<rparr>, \<lparr>Key = ''bb'', Count = 3, Error = 0\<rparr>,
         \<lparr>Key = ''bb'', Count = 6, Error = 3\<rparr>, \<lparr>Key = ''a'', Count = 3, Error = 5\<rparr>],
        \<lparr>n = 1, k = \<lparr>m = [''bb'' \<mapsto> 0], elts = [\<lparr>Key = ''bb'', Count = 6, Error = 3\<rparr>]\<rparr>,
         alphas = [3, 3, 0, 0, 0, 0]\<rparr>) \<and>
   int (length [\<lparr>Key = ''bb'', Count = 6, Error = 3\<rparr>]) \<le> 1 \<and>
   finite (dom [''bb'' \<mapsto> (0::nat)]) \<and> int (card (dom [''bb'' \<mapsto> (0::nat)])) \<le> 1"
proof -
  have h1: "(1::int) \<le> 1" by simp
  show ?thesis
    using capacity_bound [OF h1 New_1, of example_hash "[(''a'', 5), (''bb'', 3), (''bb'', 3), (''a'', - 2)]"] New_1
    by (simp add: eval_simps)
qed

section \<open>The invariant of runs with positive counts\<close>

lemma inv_wf: "inv s \<Longrightarrow> wf s"
  by (simp add: inv_def)

lemma bump_not_less: "0 \<le> c \<Longrightarrow> \<not> element_less (e\<lparr>Count := Count e + c\<rparr>) e"
  by (simp add: element_less_def)

lemma set_of_mset_eq: "mset xs = mset ys \<Longrightarrow> set xs = set ys"
  by (rule mset_eq_setD)

lemma in_set_updateD: "e \<in> set (xs[i := y]) \<Longrightarrow> e = y \<or> e \<in> set xs"
  using set_update_subset_insert [of xs i y] by auto

lemma Insert_inv:
  assumes inv: "inv s" and pos: "0 < c" and ins: "Insert H s x c = Inr (e, s')"
  shows "inv s' \<and> length (alphas s') = length (alphas s) \<and>
         (\<forall>i < length (alphas s). alphas s ! i \<le> alphas s' ! i)"
proof -
  let ?es = "elts (k s)"
  have wf: "wf s" and hp: "heap_ok ?es"
    and below: "\<And>a b. a \<in> set (alphas s) \<Longrightarrow> b \<in> set ?es \<Longrightarrow> a \<le> Count b"
    and zero: "\<And>a. int (length ?es) < n s \<Longrightarrow> a \<in> set (alphas s) \<Longrightarrow> a = 0"
    using inv by (auto simp: inv_def)
  have ok: "index_ok (k s)" using wf by (simp add: wf_def)
  obtain e0 s0 where w: "Insert H s x c = Inr (e0, s0)" "wf s0" "n s0 = n s"
    using Insert_wf [OF wf, of H x c] by blast
  then have wf': "wf s'" and n': "n s' = n s" using ins by simp_all
  from wf show ?thesis
  proof (cases rule: Insert_cases [of s x c H])
    case (monitored idx e1 s1)
    then have [simp]: "e1 = e" "s1 = s'" using ins by simp_all
    let ?tk = "(k s)\<lparr>elts := ?es[idx := e]\<rparr>"
    have e: "e = (?es ! idx)\<lparr>Count := Count (?es ! idx) + c\<rparr>" using monitored(4) by simp
    have idx: "idx < length ?es" by (rule monitored(2))
    have nl: "\<not> element_less e (?es ! idx)" unfolding e using pos by (intro bump_not_less) simp
    have p: "0 < idx \<longrightarrow> \<not> element_less e (?es ! ((idx - 1) div 2))"
    proof
      assume "0 < idx"
      then have "\<not> element_less (?es ! idx) (?es ! ((idx - 1) div 2))"
        using hp idx by (simp add: heap_ok_def)
      then show "\<not> element_less e (?es ! ((idx - 1) div 2))" using nl by (rule element_le_trans)
    qed
    have dp: "down_pre (elts ?tk) idx"
      using down_pre_update [OF hp idx p] by simp
    have "index_ok ?tk" using ok idx by (rule index_ok_update) (simp add: e)
    then have "heap_ok (elts (heap_Fix ?tk idx))"
      using idx dp by (intro heap_Fix_heap) simp_all
    then have hp': "heap_ok (elts (k s'))" using monitored(6) by simp
    have set': "set (elts (k s')) = set (?es[idx := e])"
      using monitored(10) by (intro set_of_mset_eq) simp
    have len': "length (elts (k s')) = length ?es"
      using mset_eq_length [OF monitored(10)] by simp
    have al: "alphas s' = alphas s" using monitored(7) by simp
    have below': "a \<le> Count b" if "a \<in> set (alphas s')" "b \<in> set (elts (k s'))" for a b
    proof -
      have a: "a \<in> set (alphas s)" using that al by simp
      have "b = e \<or> b \<in> set ?es" using that(2) set' in_set_updateD by metis
      then show ?thesis
      proof
        assume "b = e"
        moreover have "a \<le> Count (?es ! idx)" using below [OF a] idx by simp
        ultimately show ?thesis using pos by (simp add: e)
      next
        assume "b \<in> set ?es" then show ?thesis using below [OF a] by simp
      qed
    qed
    have "inv s'"
      unfolding inv_def using wf' hp' below' zero len' al n' by auto
    then show ?thesis using al by simp
  next
    case (push e1 s1)
    then have [simp]: "e1 = e" "s1 = s'" using ins by simp_all
    have e: "e = \<lparr>Key = x, Count = c, Error = 0\<rparr>" using push(3) by simp
    have al: "alphas s' = alphas s" using push(6) by simp
    have "heap_ok (elts (heap_Push (k s) e))" using hp by (rule heap_Push_heap)
    then have hp': "heap_ok (elts (k s'))" using push(5) by simp
    have set': "set (elts (k s')) = insert e (set ?es)"
      using push(9) by (metis \<open>e1 = e\<close> \<open>s1 = s'\<close> set_mset_mset set_mset_add_mset_insert)
    have below': "a \<le> Count b" if "a \<in> set (alphas s')" "b \<in> set (elts (k s'))" for a b
    proof -
      have a: "a \<in> set (alphas s)" using that al by simp
      then have "a = 0" using zero push(2) by simp
      moreover have "b = e \<or> b \<in> set ?es" using that(2) set' by auto
      ultimately show ?thesis using below [OF a] pos by (auto simp: e)
    qed
    have zero': "a = 0" if "a \<in> set (alphas s')" for a
      using that al zero push(2) by simp
    have "inv s'"
      unfolding inv_def using wf' hp' below' zero' by auto
    then show ?thesis using al by simp
  next
    case (filtered e1 s1)
    then have [simp]: "e1 = e" "s1 = s'" using ins by simp_all
    let ?xh = "hashIndex H s x"
    have al: "alphas s' = (alphas s)[?xh := alphas s ! ?xh + c]" using filtered(9) by simp
    have ks: "k s' = k s" using filtered(8) by simp
    have root: "Count (?es ! 0) \<le> Count b" if "b \<in> set ?es" for b
      using hp that by (rule heap_ok_root_Count)
    have below': "a \<le> Count b" if "a \<in> set (alphas s')" "b \<in> set (elts (k s'))" for a b
    proof -
      have b: "b \<in> set ?es" using that(2) ks by simp
      have "a = alphas s ! ?xh + c \<or> a \<in> set (alphas s)"
        using that(1) unfolding al by (rule in_set_updateD)
      then show ?thesis
      proof
        assume "a = alphas s ! ?xh + c"
        then show ?thesis using filtered(5) root [OF b] by simp
      next
        assume "a \<in> set (alphas s)" then show ?thesis using below b by simp
      qed
    qed
    have full: "\<not> int (length (elts (k s'))) < n s'" using filtered(2) ks n' by simp
    have "inv s'"
      unfolding inv_def using wf' hp ks below' full by auto
    moreover have "\<forall>i < length (alphas s). alphas s ! i \<le> alphas s' ! i"
      using pos filtered(4) by (auto simp: al nth_list_update)
    ultimately show ?thesis by (simp add: al)
  next
    case (evict as e1 s1)
    then have [simp]: "e1 = e" "s1 = s'" using ins by simp_all
    let ?xh = "hashIndex H s x" and ?mk = "hashIndex H s (Key (?es ! 0))"
    let ?mu = "Count (?es ! 0)"
    let ?tk = "\<lparr>m = ((m (k s))(Key (?es ! 0) := None))(x \<mapsto> 0), elts = ?es[0 := e]\<rparr>"
    have as: "as = (alphas s)[?mk := ?mu]" by (rule evict(7))
    have e: "e = \<lparr>Key = x, Count = as ! ?xh + c, Error = as ! ?xh\<rparr>" using evict(8) by simp
    have al: "alphas s' = as" using evict(11) by simp
    have len: "0 < length ?es" using evict(3) by simp
    have root_in: "?es ! 0 \<in> set ?es" using len by simp
    have root: "?mu \<le> Count b" if "b \<in> set ?es" for b
      using hp that by (rule heap_ok_root_Count)
    have cell_le: "a \<le> ?mu" if "a \<in> set (alphas s)" for a
      using below [OF that root_in] .
    have as_le: "a \<le> ?mu" if "a \<in> set as" for a
      using that cell_le in_set_updateD unfolding as by fastforce
    have mono: "\<forall>i < length (alphas s). alphas s ! i \<le> as ! i"
      using cell_le evict(5) by (auto simp: as nth_list_update)
    have e_ge: "?mu \<le> Count e"
    proof (cases "?xh = ?mk")
      case True
      then have "as ! ?xh = ?mu" using evict(5) by (simp add: as)
      then show ?thesis using pos by (simp add: e)
    next
      case False
      then have "as ! ?xh = alphas s ! ?xh" by (simp add: as)
      then show ?thesis using evict(6) by (simp add: e)
    qed
    have dp: "down_pre (elts ?tk) 0"
      using down_pre_update [OF hp len, of e] by simp
    have "index_ok ?tk"
      using index_ok_replace_root [OF ok evict(3), of e] evict(1) by (simp add: e)
    then have "heap_ok (elts (heap_Fix ?tk 0))"
      using len dp by (intro heap_Fix_heap) simp_all
    then have hp': "heap_ok (elts (k s'))" using evict(10) by simp
    have set': "set (elts (k s')) = set (?es[0 := e])"
      using evict(14) by (intro set_of_mset_eq) simp
    have len': "length (elts (k s')) = length ?es"
      using mset_eq_length [OF evict(14)] by simp
    have below': "a \<le> Count b" if "a \<in> set (alphas s')" "b \<in> set (elts (k s'))" for a b
    proof -
      have a: "a \<le> ?mu" using that(1) al as_le by simp
      have "b = e \<or> b \<in> set ?es" using that(2) set' in_set_updateD by metis
      then have "?mu \<le> Count b" using e_ge root by auto
      then show ?thesis using a by simp
    qed
    have full: "\<not> int (length (elts (k s'))) < n s'" using evict(2) len' n' by simp
    have "inv s'"
      unfolding inv_def using wf' hp' below' full by auto
    then show ?thesis using mono al by (simp add: as)
  qed
qed

lemma positive_Cons: "positive ((x, c) # ops) \<longleftrightarrow> 0 < c \<and> positive ops"
  by (simp add: positive_def)

lemma Inserts_inv:
  "inv s \<Longrightarrow> positive ops \<Longrightarrow> Inserts H s ops = Inr (es, s') \<Longrightarrow>
   inv s' \<and> length (alphas s') = length (alphas s)"
proof (induction ops arbitrary: s es)
  case Nil
  then show ?case by simp
next
  case (Cons op ops)
  obtain x c where op: "op = (x, c)" by (cases op)
  have pos: "0 < c" "positive ops" using Cons.prems(2) by (simp_all add: op positive_Cons)
  obtain e s1 where i: "Insert H s x c = Inr (e, s1)"
    using Insert_wf [OF inv_wf [OF Cons.prems(1)], of H x c] by blast
  then obtain es1 where r: "Inserts H s1 ops = Inr (es1, s')"
    using Cons.prems(3) by (auto simp: op split: sum.splits)
  have s1: "inv s1" "length (alphas s1) = length (alphas s)"
    using Insert_inv [OF Cons.prems(1) pos(1) i] by simp_all
  show ?case using Cons.IH [OF s1(1) pos(2) r] s1(2) by simp
qed

text \<open>While only positive counts are inserted, no cell exceeds a monitored count; the
  assignment of the eviction then cannot lower the cell it writes.\<close>

lemma reachable_cells_below_minimum:
  assumes "1 \<le> cap" and "New cap = Inr s0" and "positive ops"
    and "Inserts H s0 ops = Inr (es, s)" and "e \<in> set (elts (k s))" and "i < length (alphas s)"
  shows "alphas s ! i \<le> Count e"
proof -
  have "inv s0" using New_wf [OF assms(1,2)] by simp
  then have "inv s" using Inserts_inv [OF _ assms(3,4)] by simp
  then show ?thesis using assms(5,6) by (simp add: inv_def)
qed



section \<open>Errors stay within counts\<close>






section \<open>Counts reported for a key\<close>









end
